theory Spec2Isabelle
  imports Complex_Main "HOL-Library.Word" "HOL-Library.Sublist"
begin

section \<open>Discord voice stream playback: the PCM transform\<close>

text \<open>
  Shallow embedding of \<^verbatim>\<open>src/discord/voice/stream-playback.ts\<close>.
  A Node \<^verbatim>\<open>Buffer\<close> is a list of bytes; \<^verbatim>\<open>Buffer.concat\<close> is append,
  \<^verbatim>\<open>subarray(a)\<close> is \<open>drop a\<close> and \<^verbatim>\<open>subarray(0, n)\<close> is \<open>take n\<close>.
  JavaScript numbers that the code only uses as lengths, offsets and counts are \<open>nat\<close>;
  sample values and the sample rate are \<open>int\<close>; the buffered duration and the byte
  count computed from it are double-precision numbers, modelled below.
\<close>

type_synonym byte = "8 word"
type_synonym Buffer = "byte list"

definition DISCORD_SAMPLE_RATE :: int where
  "DISCORD_SAMPLE_RATE = 48000"

definition DISCORD_CHANNELS :: nat where
  "DISCORD_CHANNELS = 2"

definition PCM_SAMPLE_BYTES :: nat where
  "PCM_SAMPLE_BYTES = 2"

definition DEFAULT_MAX_BUFFERED_MS :: rat where
  "DEFAULT_MAX_BUFFERED_MS = 6000"

definition MIN_BUFFERED_MS :: rat where
  "MIN_BUFFERED_MS = 200"

subsection \<open>Double-precision numbers and \<^verbatim>\<open>resolveMaxBufferedBytes\<close>\<close>

text \<open>
  A JavaScript number: not-a-number, an infinity, or a finite value (a rational; the
  finite doubles are among them).
\<close>

datatype number = NaN | Infinity | NegInfinity | Num rat

text \<open>
  Rounding to the nearest double, ties to even. \<open>pow2_below x\<close> is the power of two
  with \<open>pow2_below x \<le> x < 2 * pow2_below x\<close>, found by doubling from 1 or by halving
  from 1; the doubles of that binade are the multiples of \<open>pow2_below x / 2 ^ 52\<close> (53
  significant bits), and \<open>round53 x\<close> is the nearest of them, the one with the even
  multiple when \<open>x\<close> is half-way between two.
\<close>

definition round_half_even :: "rat \<Rightarrow> int" where
  "round_half_even m =
     (let f = \<lfloor>m\<rfloor>; d = m - of_int f
      in if d < 1 / 2 then f else if 1 / 2 < d then f + 1
         else if even f then f else f + 1)"

function pow2_up :: "rat \<Rightarrow> rat \<Rightarrow> rat" where
  "pow2_up x p = (if 0 < p \<and> 2 * p \<le> x then pow2_up x (2 * p) else p)"
  by pat_completeness auto
termination
proof (relation "measure (\<lambda>(x, p). nat \<lfloor>x / p\<rfloor>)")
  show "wf (measure (\<lambda>(x, p). nat \<lfloor>x / p\<rfloor>))" by simp
next
  fix x p :: rat
  assume a: "0 < p \<and> 2 * p \<le> x"
  define y where "y = x / p"
  have y2: "2 \<le> y" using a by (simp add: y_def pos_le_divide_eq mult.commute)
  have e: "x / (2 * p) = y / 2" by (simp add: y_def)
  have "\<lfloor>y / 2\<rfloor> < \<lfloor>y\<rfloor>"
  proof -
    have "y / 2 \<le> y - 1" using y2 by simp
    then have "\<lfloor>y / 2\<rfloor> \<le> \<lfloor>y - 1\<rfloor>" by (rule floor_mono)
    then show ?thesis by simp
  qed
  moreover have "0 < \<lfloor>y\<rfloor>" using y2 by (simp add: less_floor_iff)
  ultimately have "nat \<lfloor>y / 2\<rfloor> < nat \<lfloor>y\<rfloor>" by linarith
  then have "nat \<lfloor>x / (2 * p)\<rfloor> < nat \<lfloor>x / p\<rfloor>"
    unfolding e unfolding y_def .
  then show "((x, 2 * p), (x, p)) \<in> measure (\<lambda>(x, p). nat \<lfloor>x / p\<rfloor>)"
    unfolding in_measure prod.case .
qed

function pow2_down :: "rat \<Rightarrow> rat \<Rightarrow> rat" where
  "pow2_down x p = (if 0 < x \<and> x < p then pow2_down x (p / 2) else p)"
  by pat_completeness auto
termination
proof (relation "measure (\<lambda>(x, p). nat \<lfloor>p / x\<rfloor>)")
  show "wf (measure (\<lambda>(x, p). nat \<lfloor>p / x\<rfloor>))" by simp
next
  fix x p :: rat
  assume a: "0 < x \<and> x < p"
  define y where "y = p / x"
  have y1: "1 < y" using a by (simp add: y_def)
  have e: "p / 2 / x = y / 2" by (simp add: y_def)
  have "\<lfloor>y / 2\<rfloor> < \<lfloor>y\<rfloor>"
  proof (cases "2 \<le> y")
    case True
    then have "y / 2 \<le> y - 1" by simp
    then have "\<lfloor>y / 2\<rfloor> \<le> \<lfloor>y - 1\<rfloor>" by (rule floor_mono)
    then show ?thesis by simp
  next
    case False
    then have "y / 2 < 1" by simp
    then have "\<lfloor>y / 2\<rfloor> < 1" by (simp add: floor_less_iff)
    moreover have "1 \<le> \<lfloor>y\<rfloor>" using y1 by (simp add: le_floor_iff)
    ultimately show ?thesis by linarith
  qed
  moreover have "0 < \<lfloor>y\<rfloor>" using y1 by (simp add: less_floor_iff le_floor_iff)
  ultimately have "nat \<lfloor>y / 2\<rfloor> < nat \<lfloor>y\<rfloor>" by linarith
  then have "nat \<lfloor>p / 2 / x\<rfloor> < nat \<lfloor>p / x\<rfloor>"
    unfolding e unfolding y_def .
  then show "((x, p / 2), (x, p)) \<in> measure (\<lambda>(x, p). nat \<lfloor>p / x\<rfloor>)"
    unfolding in_measure prod.case .
qed

declare pow2_up.simps [simp del] pow2_down.simps [simp del]

definition pow2_below :: "rat \<Rightarrow> rat" where
  "pow2_below x = (if 1 \<le> x then pow2_up x 1 else pow2_down x 1)"

definition round53 :: "rat \<Rightarrow> rat" where
  "round53 x = (let ulp = pow2_below x / 2 ^ 52 in of_int (round_half_even (x / ulp)) * ulp)"

text \<open>
  The double that an exact result rounds to: an infinity when the rounded value does not
  fit the exponent range. Results below \<open>2 ^ -1022\<close> would be rounded on a coarser grid
  (gradual underflow); the function below never produces one, its operands being at
  least 200 / 1000, and the model leaves that grid out.
\<close>

definition to_double :: "rat \<Rightarrow> number" where
  "to_double x =
     (if x = 0 then Num 0
      else if 0 < x then (if 2 ^ 1024 \<le> round53 x then Infinity else Num (round53 x))
      else (if 2 ^ 1024 \<le> round53 (- x) then NegInfinity else Num (- round53 (- x))))"

text \<open>
  \<^verbatim>\<open>Math.max\<close> and \<^verbatim>\<open>Math.floor\<close> on numbers (not-a-number is contagious), and
  the division and the multiplication of a number by a positive finite constant, each
  rounded once.
\<close>

fun Math_max :: "number \<Rightarrow> number \<Rightarrow> number" where
  "Math_max NaN y = NaN"
| "Math_max x NaN = NaN"
| "Math_max Infinity y = Infinity"
| "Math_max x Infinity = Infinity"
| "Math_max NegInfinity y = y"
| "Math_max x NegInfinity = x"
| "Math_max (Num a) (Num b) = Num (max a b)"

fun Math_floor :: "number \<Rightarrow> number" where
  "Math_floor (Num a) = Num (of_int \<lfloor>a\<rfloor>)"
| "Math_floor x = x"

fun divide_by :: "number \<Rightarrow> rat \<Rightarrow> number" where
  "divide_by (Num a) c = to_double (a / c)"
| "divide_by x c = x"

fun times :: "number \<Rightarrow> rat \<Rightarrow> number" where
  "times (Num a) c = to_double (a * c)"
| "times x c = x"

text \<open>Lines 18-22. \<open>None\<close> is the argument left out (\<^verbatim>\<open>undefined\<close>).\<close>

definition resolveMaxBufferedBytes :: "number option \<Rightarrow> number" where
  "resolveMaxBufferedBytes maxBufferedMs =
     (let boundedMs = Math_max (Num MIN_BUFFERED_MS)
                        (case maxBufferedMs of None \<Rightarrow> Num DEFAULT_MAX_BUFFERED_MS | Some ms \<Rightarrow> ms);
          bytesPerSecond = of_int DISCORD_SAMPLE_RATE * of_nat DISCORD_CHANNELS * of_nat PCM_SAMPLE_BYTES
      in Math_max (Num 32768) (Math_floor (times (divide_by boundedMs 1000) bytesPerSecond)))"

subsection \<open>The transform\<close>

text \<open>
  The errors: the transform constructor's own configuration error; the errors that Node's
  Buffer methods throw (\<^verbatim>\<open>ERR_OUT_OF_RANGE\<close> from \<^verbatim>\<open>readInt16LE\<close> and
  \<^verbatim>\<open>writeInt16LE\<close> for an offset outside the buffer or a value outside 16 bits and
  from \<^verbatim>\<open>Buffer.allocUnsafe\<close> for a size that is not a number,
  \<^verbatim>\<open>ERR_BUFFER_OUT_OF_BOUNDS\<close> when the buffer is shorter than the two bytes
  accessed); \<^verbatim>\<open>ERR_INVALID_ARG_VALUE\<close>, which the stream constructor throws for a
  \<^verbatim>\<open>highWaterMark\<close> that is not a non-negative integer; and \<open>StreamFailure\<close>, an
  error that a stream of the pipeline emits while it plays.
\<close>

datatype error =
    UnsupportedSampleRate int
  | ERR_OUT_OF_RANGE
  | ERR_BUFFER_OUT_OF_BOUNDS
  | ERR_INVALID_ARG_VALUE
  | StreamFailure string

record PcmTransform =
  carry :: Buffer
  frameBytes :: nat
  inputSampleRate :: int
  inputChannels :: nat

text \<open>
  The constructor (lines 28-39). The parameter \<^verbatim>\<open>inputChannels\<close> has the TypeScript type
  \<^verbatim>\<open>1 | 2\<close>, which is erased at run time: the body checks the sample rate only. The model
  takes any natural number, so that what the constructor does with another channel count
  can be stated.
\<close>

definition PcmTransform_constructor :: "int \<Rightarrow> nat \<Rightarrow> error + PcmTransform" where
  "PcmTransform_constructor rate channels =
     (if rate \<noteq> 24000 \<and> rate \<noteq> 48000 then Inl (UnsupportedSampleRate rate)
      else Inr \<lparr>carry = [], frameBytes = channels * PCM_SAMPLE_BYTES,
                inputSampleRate = rate, inputChannels = channels\<rparr>)"

text \<open>
  \<^verbatim>\<open>buf.readInt16LE(offset)\<close>: the two bytes at \<open>offset\<close>, low byte first, read as a
  two's complement number; an error when they are not both inside the buffer
  (\<^verbatim>\<open>boundsError(offset, length - 2)\<close>).
\<close>

definition readInt16LE :: "Buffer \<Rightarrow> nat \<Rightarrow> error + int" where
  "readInt16LE buf offset =
     (if length buf < offset + 2
      then Inl (if length buf < 2 then ERR_BUFFER_OUT_OF_BOUNDS else ERR_OUT_OF_RANGE)
      else let first = uint (buf ! offset);
               last = uint (buf ! (offset + 1));
               val = first + last * 2 ^ 8
           in Inr (if 2 ^ 15 \<le> val then val - 2 ^ 16 else val))"

text \<open>
  \<^verbatim>\<open>buf.writeInt16LE(value, offset)\<close>: checks the value against the 16-bit signed range
  and the offset against the buffer, then stores \<open>value\<close> and \<open>value >>> 8\<close>, each
  truncated to a byte.
\<close>

definition writeInt16LE :: "Buffer \<Rightarrow> int \<Rightarrow> nat \<Rightarrow> error + Buffer" where
  "writeInt16LE buf val offset =
     (if val < - (2 ^ 15) \<or> 2 ^ 15 - 1 < val then Inl ERR_OUT_OF_RANGE
      else if length buf < offset + 2
      then Inl (if length buf < 2 then ERR_BUFFER_OUT_OF_BOUNDS else ERR_OUT_OF_RANGE)
      else Inr (buf[offset := word_of_int val, offset + 1 := word_of_int (val div 2 ^ 8)]))"

text \<open>
  \<^verbatim>\<open>Buffer.allocUnsafe(n)\<close> returns \<open>n\<close> bytes of unspecified content. The model fills
  them with zeros; lemma \<open>frame_loop_fills\<close> below shows that the loop overwrites every
  byte, whatever the buffer held.
\<close>

definition allocUnsafe :: "nat \<Rightarrow> Buffer" where
  "allocUnsafe n = replicate n 0"

text \<open>
  The inner loop (lines 61-65), \<^verbatim>\<open>for (i = 0; i < upsampleFactor; i += 1)\<close>, as a
  recursion on the number of iterations that remain. It returns the buffer and the
  advanced \<^verbatim>\<open>outputOffset\<close>.
\<close>

fun write_copies :: "nat \<Rightarrow> int \<Rightarrow> int \<Rightarrow> Buffer \<Rightarrow> nat \<Rightarrow> error + (Buffer \<times> nat)" where
  "write_copies 0 left right output outputOffset = Inr (output, outputOffset)"
| "write_copies (Suc k) left right output outputOffset =
     (case writeInt16LE output left outputOffset of
        Inl e \<Rightarrow> Inl e
      | Inr output1 \<Rightarrow>
          (case writeInt16LE output1 right (outputOffset + 2) of
             Inl e \<Rightarrow> Inl e
           | Inr output2 \<Rightarrow> write_copies k left right output2 (outputOffset + 4)))"

text \<open>
  The outer loop (lines 57-66), \<^verbatim>\<open>for (frame = 0; frame < inputFrames; frame += 1)\<close>.
\<close>

function frame_loop ::
  "PcmTransform \<Rightarrow> Buffer \<Rightarrow> nat \<Rightarrow> nat \<Rightarrow> nat \<Rightarrow> Buffer \<Rightarrow> nat \<Rightarrow> error + Buffer" where
  "frame_loop t input inputFrames upsampleFactor frame output outputOffset =
     (if frame < inputFrames then
        (let base = frame * frameBytes t in
         case readInt16LE input base of
           Inl e \<Rightarrow> Inl e
         | Inr left \<Rightarrow>
             (case (if inputChannels t = 2 then readInt16LE input (base + 2) else Inr left) of
                Inl e \<Rightarrow> Inl e
              | Inr right \<Rightarrow>
                  (case write_copies upsampleFactor left right output outputOffset of
                     Inl e \<Rightarrow> Inl e
                   | Inr (output', outputOffset') \<Rightarrow>
                       frame_loop t input inputFrames upsampleFactor (frame + 1)
                         output' outputOffset')))
      else Inr output)"
  by pat_completeness auto
termination
  by (relation "measure (\<lambda>(t, input, inputFrames, upsampleFactor, frame, output, outputOffset).
                  inputFrames - frame)") auto

declare frame_loop.simps [simp del]

text \<open>
  The result of one \<^verbatim>\<open>_transform\<close> call: the transform after the call, the buffers it
  pushed downstream, and the error handed to the callback (if any).

  With \<^verbatim>\<open>frameBytes = 0\<close> (a channel count of 0, which the type forbids) JavaScript
  computes \<^verbatim>\<open>length % 0 = NaN\<close>: the comparison on line 46 is false, so the carry is
  emptied, the test on line 47 is false, \<^verbatim>\<open>inputFrames\<close> is \<^verbatim>\<open>NaN\<close> and
  \<^verbatim>\<open>Buffer.allocUnsafe(NaN)\<close> throws; the \<^verbatim>\<open>catch\<close> hands the error to the callback.
  HOL's \<open>n mod 0 = n\<close> would hide that, so the case is written out.
\<close>

record transform_result =
  after :: PcmTransform
  pushed :: "Buffer list"
  callback_error :: "error option"

definition PcmTransform_transform :: "PcmTransform \<Rightarrow> Buffer \<Rightarrow> transform_result" where
  "PcmTransform_transform t chunk =
     (let fullChunk = (if length (carry t) > 0 then carry t @ chunk else chunk) in
      if frameBytes t = 0 then
        \<lparr>after = t\<lparr>carry := []\<rparr>, pushed = [], callback_error = Some ERR_OUT_OF_RANGE\<rparr>
      else
        let usableLength = length fullChunk - (length fullChunk mod frameBytes t);
            t' = t\<lparr>carry := (if usableLength < length fullChunk
                               then drop usableLength fullChunk else [])\<rparr>
        in if usableLength = 0 then \<lparr>after = t', pushed = [], callback_error = None\<rparr>
           else
             let input = take usableLength fullChunk;
                 inputFrames = length input div frameBytes t;
                 upsampleFactor = (if inputSampleRate t = DISCORD_SAMPLE_RATE then 1 else 2);
                 outputFrames = inputFrames * upsampleFactor;
                 output = allocUnsafe (outputFrames * DISCORD_CHANNELS * PCM_SAMPLE_BYTES)
             in case frame_loop t input inputFrames upsampleFactor 0 output 0 of
                  Inl e \<Rightarrow> \<lparr>after = t', pushed = [], callback_error = Some e\<rparr>
                | Inr out \<Rightarrow> \<lparr>after = t', pushed = [out], callback_error = None\<rparr>)"

text \<open>
  Feeding chunks in order, as the stream does: the first error handed to the callback
  ends the run. The result is the final transform and everything pushed, in order.
\<close>

fun feed :: "PcmTransform \<Rightarrow> Buffer list \<Rightarrow> error + (PcmTransform \<times> Buffer list)" where
  "feed t [] = Inr (t, [])"
| "feed t (chunk # chunks) =
     (let r = PcmTransform_transform t chunk in
      case callback_error r of
        Some e \<Rightarrow> Inl e
      | None \<Rightarrow>
          (case feed (after r) chunks of
             Inl e \<Rightarrow> Inl e
           | Inr (t', outs) \<Rightarrow> Inr (t', pushed r @ outs)))"

text \<open>The bytes that reach the next stage: all pushed buffers, concatenated.\<close>

definition emitted :: "error + (PcmTransform \<times> Buffer list) \<Rightarrow> error + Buffer" where
  "emitted r = (case r of Inl e \<Rightarrow> Inl e | Inr (t, outs) \<Rightarrow> Inr (concat outs))"

subsection \<open>What the transform computes, stated on the bytes\<close>

text \<open>
  The definitions of this subsection are not in the source: they say, directly on the
  input bytes, what the loops above are proved to compute. \<open>stereo_frame\<close> is the
  output frame of one input frame (the left sample, and the right sample of a stereo
  input or the left one again); \<open>upsampled\<close> repeats each frame; \<open>resampled\<close> is
  the output of all complete frames of a byte sequence.
\<close>

definition stereo_frame :: "PcmTransform \<Rightarrow> Buffer \<Rightarrow> nat \<Rightarrow> Buffer" where
  "stereo_frame t input frame =
     (let base = frame * frameBytes t in
      if inputChannels t = 2
      then [input ! base, input ! (base + 1), input ! (base + 2), input ! (base + 3)]
      else [input ! base, input ! (base + 1), input ! base, input ! (base + 1)])"

definition upsampled :: "PcmTransform \<Rightarrow> Buffer \<Rightarrow> nat \<Rightarrow> nat \<Rightarrow> nat \<Rightarrow> Buffer" where
  "upsampled t input upsampleFactor lo hi =
     concat (map (\<lambda>frame. concat (replicate upsampleFactor (stereo_frame t input frame)))
               [lo..<hi])"

definition upsampleFactor_of :: "PcmTransform \<Rightarrow> nat" where
  "upsampleFactor_of t = (if inputSampleRate t = DISCORD_SAMPLE_RATE then 1 else 2)"

definition usableLength_of :: "PcmTransform \<Rightarrow> Buffer \<Rightarrow> nat" where
  "usableLength_of t bytes = length bytes - (length bytes mod frameBytes t)"

definition resampled :: "PcmTransform \<Rightarrow> Buffer \<Rightarrow> Buffer" where
  "resampled t bytes =
     upsampled t bytes (upsampleFactor_of t) 0 (length bytes div frameBytes t)"

text \<open>
  A transform as the constructor builds it from a channel count that is not 0:
  \<^verbatim>\<open>frameBytes = inputChannels * 2\<close>.
\<close>

definition well_formed :: "PcmTransform \<Rightarrow> bool" where
  "well_formed t \<longleftrightarrow> frameBytes t = inputChannels t * 2 \<and> 0 < inputChannels t"

section \<open>The playback lifecycle: \<^verbatim>\<open>playDiscordPcmStream\<close>\<close>

text \<open>
  The parameters that decide the control flow. \<open>abortSignal\<close> is \<open>None\<close> when no
  signal is passed and \<open>Some b\<close> for a signal whose \<^verbatim>\<open>aborted\<close> flag is \<open>b\<close> at the
  call. The player and the PCM stream are the environment: the player's methods are
  logged as calls, the streams' events arrive as events. The calls on the player, on the
  streams and \<^verbatim>\<open>createAudioResource\<close> are taken to return normally.
  \<open>maxBufferedMs\<close> is \<open>None\<close> when the parameter is left out.
\<close>

record params =
  abortSignal :: "bool option"
  param_inputSampleRate :: "int option"
  param_inputChannels :: "nat option"
  maxBufferedMs :: "number option"

text \<open>Lines 83-84: \<^verbatim>\<open>params.inputSampleRate ?? 24_000\<close> and \<^verbatim>\<open>params.inputChannels ?? 1\<close>.\<close>

definition resolved_inputSampleRate :: "params \<Rightarrow> int" where
  "resolved_inputSampleRate p = (case param_inputSampleRate p of None \<Rightarrow> 24000 | Some r \<Rightarrow> r)"

definition resolved_inputChannels :: "params \<Rightarrow> nat" where
  "resolved_inputChannels p = (case param_inputChannels p of None \<Rightarrow> 1 | Some c \<Rightarrow> c)"

text \<open>Line 87: \<^verbatim>\<open>new PcmTransform(inputSampleRate, inputChannels)\<close>.\<close>

definition pcmTransform :: "params \<Rightarrow> error + PcmTransform" where
  "pcmTransform p = PcmTransform_constructor (resolved_inputSampleRate p) (resolved_inputChannels p)"

text \<open>
  Lines 85 and 88-90: \<^verbatim>\<open>new PassThrough({highWaterMark: maxBufferedBytes})\<close>. Node's
  stream constructor throws \<^verbatim>\<open>ERR_INVALID_ARG_VALUE\<close> unless the mark is an integer
  and not negative; not-a-number and the infinities are not integers.
\<close>

definition PassThrough_constructor :: "number \<Rightarrow> error + unit" where
  "PassThrough_constructor highWaterMark =
     (case highWaterMark of
        Num n \<Rightarrow> (if n = of_int \<lfloor>n\<rfloor> \<and> 0 \<le> n then Inr () else Inl ERR_INVALID_ARG_VALUE)
      | _ \<Rightarrow> Inl ERR_INVALID_ARG_VALUE)"

definition output_stream :: "params \<Rightarrow> error + unit" where
  "output_stream p = PassThrough_constructor (resolveMaxBufferedBytes (maxBufferedMs p))"

text \<open>
  The calls the function makes on the player and on the three streams, in the order it
  makes them.
\<close>

datatype call =
    Play
  | Stop
  | Unpipe_pcmStream
  | Unpipe_pcmTransform
  | Destroy_pcmStream
  | Destroy_pcmTransform
  | Destroy_output

text \<open>
  The \<^verbatim>\<open>await\<close> at which the asynchronous function is suspended: line 155
  (\<^verbatim>\<open>entersState\<close> Playing), line 158 (the race, or \<^verbatim>\<open>pipeDone\<close> alone without a
  signal), line 159 (\<^verbatim>\<open>pipeDone\<close>), line 164 (\<^verbatim>\<open>entersState\<close> Idle); or it has
  returned or thrown.
\<close>

datatype pc = AwaitPlaying | AwaitRace | AwaitPipeDone | AwaitIdle | Returned

datatype outcome = Resolved bool | Threw error

text \<open>
  The variables of one call: \<^verbatim>\<open>aborted\<close>, \<^verbatim>\<open>settled\<close>, the \<^verbatim>\<open>done\<close> flag of
  \<^verbatim>\<open>pipeDone\<close> (\<open>done_flag\<close>: \<open>done\<close> is an Isabelle keyword), the value
  \<^verbatim>\<open>pipeDone\<close> resolved with (\<open>None\<close> while pending, \<open>Some None\<close> for \<^verbatim>\<open>{}\<close>,
  \<open>Some (Some e)\<close> for \<^verbatim>\<open>{error: e}\<close>), whether \<^verbatim>\<open>abortDone\<close> has resolved, the
  signal, which of the two abort listeners are registered, the suspension point, the
  calls made so far and the outcome of the call once it has one.
\<close>

record playback =
  signal :: "bool option"
  aborted :: bool
  settled :: bool
  done_flag :: bool
  pipeDone :: "error option option"
  abortDone :: bool
  abortListener :: bool
  onceListener :: bool
  pc :: pc
  calls :: "call list"
  result :: "outcome option"

text \<open>Lines 97-110.\<close>

definition cleanup :: "bool \<Rightarrow> playback \<Rightarrow> playback" where
  "cleanup stopPlayer s =
     (if settled s then s
      else s\<lparr>settled := True,
             calls := calls s @ (if stopPlayer then [Stop] else []) @
                      [Unpipe_pcmStream, Unpipe_pcmTransform,
                       Destroy_pcmStream, Destroy_pcmTransform, Destroy_output]\<rparr>)"

text \<open>Lines 120-126: \<^verbatim>\<open>settle(error)\<close> resolves \<^verbatim>\<open>pipeDone\<close> once.\<close>

definition settle :: "error option \<Rightarrow> playback \<Rightarrow> playback" where
  "settle err s = (if done_flag s then s else s\<lparr>done_flag := True, pipeDone := Some err\<rparr>)"

text \<open>
  Leaving the \<^verbatim>\<open>try\<close> block with an outcome: the \<^verbatim>\<open>finally\<close> block (lines 170-173)
  removes \<^verbatim>\<open>abortListener\<close> and calls \<^verbatim>\<open>cleanup(false)\<close>.
\<close>

definition finish :: "outcome \<Rightarrow> playback \<Rightarrow> playback" where
  "finish out s = cleanup False (s\<lparr>abortListener := False, pc := Returned, result := Some out\<rparr>)"

text \<open>
  Lines 160-169, run when \<^verbatim>\<open>await pipeDone\<close> yields \<^verbatim>\<open>{error}\<close>: throw the error
  unless aborted, else wait for the player to go idle unless aborted, else return.
\<close>

definition after_pipeDone :: "error option \<Rightarrow> playback \<Rightarrow> playback" where
  "after_pipeDone err s =
     (case err of
        Some e \<Rightarrow> (if \<not> aborted s then finish (Threw e) s else finish (Resolved (aborted s)) s)
      | None \<Rightarrow> (if \<not> aborted s then s\<lparr>pc := AwaitIdle\<rparr> else finish (Resolved (aborted s)) s))"

text \<open>
  What happens to a call from outside, one event at a time:
  \<^item> \<open>AbortFired\<close>: the signal dispatches \<^verbatim>\<open>abort\<close> (once: a signal that is absent or
    already aborted dispatches nothing). The listeners run in the order they were added:
    \<^verbatim>\<open>abortListener\<close> (lines 112-115) if it is still registered, then the listener of
    \<^verbatim>\<open>abortDone\<close> (lines 143-146, registered with \<^verbatim>\<open>once\<close>).
  \<^item> \<open>StreamError\<close>: one of the three streams emits \<^verbatim>\<open>error\<close> (lines 127-129).
  \<^item> \<open>OutputFinish\<close>, \<open>OutputClose\<close>: the output stream emits \<^verbatim>\<open>finish\<close> or
    \<^verbatim>\<open>close\<close> (lines 130-135).
  \<^item> \<open>EntersStateSettled\<close>: the \<^verbatim>\<open>entersState\<close> promise being awaited resolves or
    times out (the rejection is caught), and the function runs on.
  \<^item> \<open>Resume\<close>: the function, suspended at line 158 or 159 on a promise that has been
    resolved, runs on to its next suspension point. It is an event of its own because
    other events can arrive between the resolution of a promise and the continuation.
  Events are allowed in any order and number, which covers every order in which Node can
  deliver them.
\<close>

datatype event =
    AbortFired
  | StreamError string
  | OutputFinish
  | OutputClose
  | EntersStateSettled
  | Resume

fun step :: "playback \<Rightarrow> event \<Rightarrow> playback" where
  "step s AbortFired =
     (if signal s = Some False then
        (let s1 = s\<lparr>signal := Some True\<rparr>;
             s2 = (if abortListener s1 then cleanup True (s1\<lparr>aborted := True\<rparr>) else s1)
         in if onceListener s2
            then s2\<lparr>aborted := True, abortDone := True, onceListener := False\<rparr>
            else s2)
      else s)"
| "step s (StreamError msg) = settle (Some (StreamFailure msg)) s"
| "step s OutputFinish = settle None s"
| "step s OutputClose = (if aborted s then settle None s else s)"
| "step s EntersStateSettled =
     (case pc s of
        AwaitPlaying \<Rightarrow> s\<lparr>pc := AwaitRace\<rparr>
      | AwaitIdle \<Rightarrow> finish (Resolved (aborted s)) s
      | _ \<Rightarrow> s)"
| "step s Resume =
     (case pc s of
        AwaitRace \<Rightarrow>
          (if pipeDone s \<noteq> None \<or> (signal s \<noteq> None \<and> abortDone s)
           then s\<lparr>pc := AwaitPipeDone\<rparr> else s)
      | AwaitPipeDone \<Rightarrow>
          (case pipeDone s of None \<Rightarrow> s | Some err \<Rightarrow> after_pipeDone err s)
      | _ \<Rightarrow> s)"

text \<open>
  The synchronous start of the call (lines 83-157): the constructor of the transform
  (line 87) or that of the output stream (line 88) may throw, and then nothing else has
  happened. Otherwise the listeners are registered (on a signal that is already aborted
  they never run), and either \<^verbatim>\<open>play\<close> is called and the function waits at line
  155, or, with \<^verbatim>\<open>aborted\<close> already true, it returns at once.
\<close>

definition start :: "params \<Rightarrow> error + playback" where
  "start p =
     (case pcmTransform p of
        Inl e \<Rightarrow> Inl e
      | Inr t \<Rightarrow>
          (case output_stream p of
             Inl e \<Rightarrow> Inl e
           | Inr out \<Rightarrow>
               (let s = \<lparr>signal = abortSignal p, aborted = (abortSignal p = Some True),
                          settled = False, done_flag = False, pipeDone = None,
                          abortDone = False,
                          abortListener = (abortSignal p \<noteq> None),
                          onceListener = (abortSignal p \<noteq> None),
                          pc = AwaitPlaying, calls = [], result = None\<rparr>
                in if \<not> aborted s then Inr (s\<lparr>calls := [Play]\<rparr>)
                   else Inr (finish (Resolved (aborted s)) s))))"

text \<open>
  The call that threw in one of the two constructors: no listener, no handler, no call
  made.
\<close>

definition threw_at_construction :: "error \<Rightarrow> playback" where
  "threw_at_construction e =
     \<lparr>signal = None, aborted = False, settled = False, done_flag = False, pipeDone = None,
      abortDone = False, abortListener = False, onceListener = False,
      pc = Returned, calls = [], result = Some (Threw e)\<rparr>"

text \<open>A whole call: the start, then the events in the order they arrive.\<close>

definition playDiscordPcmStream :: "params \<Rightarrow> event list \<Rightarrow> playback" where
  "playDiscordPcmStream p events =
     (case start p of
        Inl e \<Rightarrow> threw_at_construction e
      | Inr s \<Rightarrow> foldl step s events)"

definition teardown_calls :: "call list" where
  "teardown_calls = [Unpipe_pcmStream, Unpipe_pcmTransform,
                     Destroy_pcmStream, Destroy_pcmTransform, Destroy_output]"

subsection \<open>The states a call goes through\<close>

text \<open>
  The five kinds of state that a call which got past the constructor can be in; they are
  used to state and prove the properties of the lifecycle, and are not in the source.
  \<^item> \<open>running\<close>: suspended, not aborted; only \<^verbatim>\<open>play\<close> has been called.
  \<^item> \<open>aborting\<close>: suspended after the signal fired; \<^verbatim>\<open>abortListener\<close> has run
    \<^verbatim>\<open>cleanup(true)\<close>.
  \<^item> \<open>completed\<close>: returned \<^verbatim>\<open>{aborted: false}\<close> or threw; the \<^verbatim>\<open>finally\<close> block
    has run \<^verbatim>\<open>cleanup(false)\<close>.
  \<^item> \<open>aborted_result\<close>: returned \<^verbatim>\<open>{aborted: true}\<close> after the signal fired.
  \<^item> \<open>preaborted\<close>: the signal was aborted at the call; returned at once.
\<close>

definition running :: "playback \<Rightarrow> bool" where
  "running s \<longleftrightarrow>
     result s = None \<and> pc s \<noteq> Returned \<and> \<not> aborted s \<and> \<not> settled s \<and>
     calls s = [Play] \<and> signal s \<noteq> Some True \<and>
     abortListener s = (signal s \<noteq> None) \<and> onceListener s = (signal s \<noteq> None) \<and>
     \<not> abortDone s \<and> done_flag s = (pipeDone s \<noteq> None)"

definition aborting :: "playback \<Rightarrow> bool" where
  "aborting s \<longleftrightarrow>
     result s = None \<and> pc s \<noteq> Returned \<and> aborted s \<and> settled s \<and>
     calls s = Play # Stop # teardown_calls \<and> signal s = Some True \<and>
     abortDone s \<and> done_flag s = (pipeDone s \<noteq> None)"

definition completed :: "playback \<Rightarrow> bool" where
  "completed s \<longleftrightarrow>
     result s \<noteq> None \<and> result s \<noteq> Some (Resolved True) \<and> pc s = Returned \<and> settled s \<and>
     \<not> abortListener s \<and> calls s = Play # teardown_calls"

definition aborted_result :: "playback \<Rightarrow> bool" where
  "aborted_result s \<longleftrightarrow>
     result s = Some (Resolved True) \<and> pc s = Returned \<and> settled s \<and> aborted s \<and>
     \<not> abortListener s \<and> calls s = Play # Stop # teardown_calls \<and> signal s = Some True"

definition preaborted :: "playback \<Rightarrow> bool" where
  "preaborted s \<longleftrightarrow>
     result s = Some (Resolved True) \<and> pc s = Returned \<and> settled s \<and> aborted s \<and>
     \<not> abortListener s \<and> calls s = teardown_calls \<and> signal s = Some True"

definition reachable :: "playback \<Rightarrow> bool" where
  "reachable s \<longleftrightarrow> running s \<or> aborting s \<or> completed s \<or> aborted_result s \<or> preaborted s"

text \<open>
  Stages of a call on its way out after the signal fired: it has left the wait at line
  155, it is suspended at line 159 on \<^verbatim>\<open>pipeDone\<close>, \<^verbatim>\<open>pipeDone\<close> has been resolved,
  or it waits at line 164. Each includes the call that has already returned
  \<^verbatim>\<open>{aborted: true}\<close>.
\<close>

definition past_playing :: "playback \<Rightarrow> bool" where
  "past_playing s \<longleftrightarrow>
     aborted_result s \<or> aborting s \<and> (pc s = AwaitRace \<or> pc s = AwaitPipeDone)"

definition at_pipeDone :: "playback \<Rightarrow> bool" where
  "at_pipeDone s \<longleftrightarrow> aborted_result s \<or> aborting s \<and> pc s = AwaitPipeDone"

definition pipe_resolved :: "playback \<Rightarrow> bool" where
  "pipe_resolved s \<longleftrightarrow> aborted_result s \<or> aborting s \<and> pipeDone s \<noteq> None"

definition at_idle :: "playback \<Rightarrow> bool" where
  "at_idle s \<longleftrightarrow> aborted_result s \<or> aborting s \<and> pc s = AwaitIdle"

text \<open>
  What a suspended call is owed before it can return once the signal has fired, by the
  \<^verbatim>\<open>await\<close> it is suspended at: the \<^verbatim>\<open>entersState\<close> it awaits settles (it has a
  timeout), and the function is resumed at line 158 and at line 159. The last resumption
  needs \<^verbatim>\<open>pipeDone\<close> resolved: by an event of a stream, among them the \<^verbatim>\<open>close\<close> that
  the output stream emits after the cleanup has destroyed it.
\<close>

fun owed :: "pc \<Rightarrow> event list" where
  "owed AwaitPlaying = [EntersStateSettled, Resume, Resume]"
| "owed AwaitRace = [Resume, Resume]"
| "owed AwaitPipeDone = [Resume]"
| "owed AwaitIdle = [EntersStateSettled]"
| "owed Returned = []"

fun resolves_pipeDone :: "event \<Rightarrow> bool" where
  "resolves_pipeDone (StreamError msg) = True"
| "resolves_pipeDone OutputFinish = True"
| "resolves_pipeDone OutputClose = True"
| "resolves_pipeDone ev = False"

section \<open>The streaming delivery controller\<close>

text \<open>
  Modelled from the spec: the Streaming Delivery Controller (section 4.4 of the
  specification; in the repository \<^verbatim>\<open>textToSpeechWithFallback\<close> and
  \<^verbatim>\<open>textToSpeechStream\<close> of \<^verbatim>\<open>src/tts/tts.ts\<close>, which is not among the sources:
  only its tests in \<^verbatim>\<open>tts.test.ts\<close> are). The provider client is the environment:
  whether it supports streaming, how its streaming call answers (after how many
  milliseconds, with a stream or with an error, or never) and whether its buffered
  synthesis succeeds. The result records the variant, the \<open>delivery\<close> tag, the
  streaming failure a fallback came from, and how many timer races were started.
\<close>

datatype delivery = stream | buffered

datatype stream_failure = TimedOut | StreamingFailed string

datatype errorKind = UnsupportedOrTimedOut | ProviderError

datatype variant = StreamSuccess | BufferedSuccess | Failure errorKind

datatype streaming_call = Responds nat "string option" | NeverResponds

record DeliveryRequest =
  stream_enabled :: bool
  timeoutMs :: nat
  fallbackToBuffered :: bool

record provider_client =
  supportsStreaming :: bool
  synthesizeStreaming :: streaming_call
  synthesizeBuffered :: "string option"

record DeliveryResult =
  outcome_variant :: variant
  delivery :: delivery
  fallbackFromError :: "stream_failure option"
  timer_races :: nat

text \<open>
  Modelled from the spec: "race the provider's streaming call against a timer of the
  configured duration" (section 4.4, step 2). The timer wins when the call has not
  answered before the timeout.
\<close>

definition race :: "streaming_call \<Rightarrow> nat \<Rightarrow> stream_failure option" where
  "race call timeout =
     (case call of
        NeverResponds \<Rightarrow> Some TimedOut
      | Responds latency response \<Rightarrow>
          (if timeout \<le> latency then Some TimedOut
           else case response of None \<Rightarrow> None | Some msg \<Rightarrow> Some (StreamingFailed msg)))"

text \<open>
  Modelled from the spec: "perform buffered delivery (delegate to the external provider
  client) and return its result tagged \<open>delivery=buffered\<close>", carrying the streaming
  failure when it is a fallback. The buffered synthesis can fail
  (\<^verbatim>\<open>synthesizeBuffered\<close> returns \<^verbatim>\<open>{success, audioLocation|error, ...}\<close>, section 6).
\<close>

definition buffered_path :: "provider_client \<Rightarrow> stream_failure option \<Rightarrow> nat \<Rightarrow> DeliveryResult" where
  "buffered_path client reason races =
     \<lparr>outcome_variant = (case synthesizeBuffered client of
                            None \<Rightarrow> BufferedSuccess
                          | Some msg \<Rightarrow> Failure ProviderError),
      delivery = buffered, fallbackFromError = reason, timer_races = races\<rparr>"

text \<open>
  Modelled from the spec: starting the race of step 2 counts it, so that the number of
  races a request has started can be read off its result.
\<close>

definition start_timer_race ::
  "streaming_call \<Rightarrow> nat \<Rightarrow> nat \<Rightarrow> stream_failure option \<times> nat" where
  "start_timer_race call timeout races = (race call timeout, Suc races)"

text \<open>
  Modelled from the spec: the decision algorithm of section 4.4. Step 1 (and step 3): when
  streaming is not requested, or the provider does not support it, the buffered delivery
  is performed at once and its result returned tagged \<open>delivery=buffered\<close>, with no
  timer race. Step 2: otherwise the streaming call is raced against the timer; a success
  is returned tagged \<open>delivery=stream\<close>; after a timeout or a failure the buffered
  delivery is performed if \<open>fallbackToBuffered\<close> is set, carrying the streaming failure,
  and else the result is \<open>Failure{errorKind=UnsupportedOrTimedOut}\<close> tagged
  \<open>delivery=stream\<close>.
\<close>

definition requestSpeech :: "provider_client \<Rightarrow> DeliveryRequest \<Rightarrow> DeliveryResult" where
  "requestSpeech client request =
     (if \<not> stream_enabled request \<or> \<not> supportsStreaming client
      then buffered_path client None 0
      else
        (case start_timer_race (synthesizeStreaming client) (timeoutMs request) 0 of
           (None, races) \<Rightarrow>
             \<lparr>outcome_variant = StreamSuccess, delivery = stream,
              fallbackFromError = None, timer_races = races\<rparr>
         | (Some reason, races) \<Rightarrow>
             (if fallbackToBuffered request then buffered_path client (Some reason) races
              else \<lparr>outcome_variant = Failure UnsupportedOrTimedOut, delivery = stream,
                     fallbackFromError = None, timer_races = races\<rparr>)))"

section \<open>Properties of the buffer size\<close>

lemma round_half_even_error: "\<bar>of_int (round_half_even m) - m\<bar> \<le> 1 / 2"
proof -
  have "of_int \<lfloor>m\<rfloor> \<le> m" "m < of_int \<lfloor>m\<rfloor> + 1" by linarith+
  then show ?thesis by (auto simp: round_half_even_def Let_def)
qed

lemma pow2_up_bounds:
  "0 < p \<Longrightarrow> p \<le> x \<Longrightarrow> 0 < pow2_up x p \<and> pow2_up x p \<le> x \<and> x < 2 * pow2_up x p"
proof (induction x p rule: pow2_up.induct)
  case (1 x p)
  show ?case
  proof (cases "2 * p \<le> x")
    case True
    then have "pow2_up x p = pow2_up x (2 * p)" using "1.prems" by (subst pow2_up.simps) simp
    moreover have "0 < pow2_up x (2 * p) \<and> pow2_up x (2 * p) \<le> x \<and> x < 2 * pow2_up x (2 * p)"
      using "1.prems" True by (intro "1.IH") simp_all
    ultimately show ?thesis by simp
  next
    case False
    then have "pow2_up x p = p" by (subst pow2_up.simps) simp
    then show ?thesis using "1.prems" False by simp
  qed
qed

lemma pow2_down_bounds:
  "0 < x \<Longrightarrow> 0 < p \<Longrightarrow> x < 2 * p \<Longrightarrow>
   0 < pow2_down x p \<and> pow2_down x p \<le> x \<and> x < 2 * pow2_down x p"
proof (induction x p rule: pow2_down.induct)
  case (1 x p)
  show ?case
  proof (cases "x < p")
    case True
    then have "pow2_down x p = pow2_down x (p / 2)" using "1.prems" by (subst pow2_down.simps) simp
    moreover have "0 < pow2_down x (p / 2) \<and> pow2_down x (p / 2) \<le> x \<and> x < 2 * pow2_down x (p / 2)"
      using "1.prems" True by (intro "1.IH") simp_all
    ultimately show ?thesis by simp
  next
    case False
    then have "pow2_down x p = p" by (subst pow2_down.simps) simp
    then show ?thesis using "1.prems" False by simp
  qed
qed

lemma pow2_below_bounds:
  assumes "0 < x"
  shows "0 < pow2_below x" "pow2_below x \<le> x" "x < 2 * pow2_below x"
  using assms pow2_up_bounds [of 1 x] pow2_down_bounds [of x 1]
  by (auto simp: pow2_below_def)

lemma round53_error:
  assumes "0 < x"
  shows "\<bar>round53 x - x\<bar> \<le> x / 2 ^ 53"
proof -
  define ulp where "ulp = pow2_below x / 2 ^ 52"
  have up: "0 < ulp" using pow2_below_bounds(1) [OF assms] by (simp add: ulp_def)
  have r: "round53 x = of_int (round_half_even (x / ulp)) * ulp"
    unfolding round53_def Let_def ulp_def ..
  have "round53 x - x = (of_int (round_half_even (x / ulp)) - x / ulp) * ulp"
    using up by (simp add: r algebra_simps)
  then have "\<bar>round53 x - x\<bar> = \<bar>of_int (round_half_even (x / ulp)) - x / ulp\<bar> * ulp"
    using up by (simp add: abs_mult)
  also have "\<dots> \<le> 1 / 2 * ulp"
    using up round_half_even_error [of "x / ulp"] by (intro mult_right_mono) simp_all
  also have "\<dots> = pow2_below x / 2 ^ 53" by (simp add: ulp_def)
  also have "\<dots> \<le> x / 2 ^ 53"
    using pow2_below_bounds(2) [OF assms] by (simp add: divide_right_mono)
  finally show ?thesis .
qed

lemma bytesPerSecond:
  "(of_int DISCORD_SAMPLE_RATE * of_nat DISCORD_CHANNELS * of_nat PCM_SAMPLE_BYTES :: rat) = 192000"
  by (simp add: DISCORD_SAMPLE_RATE_def DISCORD_CHANNELS_def PCM_SAMPLE_BYTES_def)

lemma floor_near:
  fixes p y :: rat
  assumes "\<bar>p - y\<bar> < 1"
  shows "\<bar>\<lfloor>p\<rfloor> - \<lfloor>y\<rfloor>\<bar> \<le> 1"
proof -
  have "y - 1 \<le> p" "p \<le> y + 1" using assms by linarith+
  then have "\<lfloor>y - 1\<rfloor> \<le> \<lfloor>p\<rfloor>" "\<lfloor>p\<rfloor> \<le> \<lfloor>y + 1\<rfloor>"
    by (simp_all only: floor_mono)
  then show ?thesis by simp
qed

lemma floor_near_int:
  fixes p :: rat
  assumes "\<bar>p - of_int n\<bar> < 1"
  shows "\<lfloor>p\<rfloor> = n \<or> \<lfloor>p\<rfloor> = n - 1"
proof -
  have "of_int n - 1 \<le> p" "p < of_int n + 1" using assms by linarith+
  then have "of_int (n - 1) \<le> p" "p < of_int (n + 1)" by simp_all
  then have "n - 1 \<le> \<lfloor>p\<rfloor>" "\<lfloor>p\<rfloor> < n + 1"
    by (simp_all only: le_floor_iff floor_less_iff)
  then show ?thesis by linarith
qed

lemma double_product_error:
  fixes b :: rat
  assumes "200 \<le> b" "b \<le> 10 ^ 12"
  defines "q \<equiv> round53 (b / 1000)"
  defines "p \<equiv> round53 (q * 192000)"
  shows "0 < q" "q < 2 ^ 1024" "0 < p" "p < 2 ^ 1024" "\<bar>p - b * 192\<bar> < 1"
proof -
  define eps :: rat where "eps = 1 / 2 ^ 53"
  define c where "c = b / 1000"
  define d where "d = c * eps"
  define x where "x = q * 192000"
  define d' where "d' = x * eps"
  have eps: "0 \<le> eps" "eps \<le> 1 / 10 ^ 15" by (simp_all add: eps_def)
  have c: "2 / 10 \<le> c" "c \<le> 10 ^ 9" using assms(1,2) by (simp_all add: c_def)
  have c0: "0 < c" using c(1) by simp
  have "d \<le> 10 ^ 9 * (1 / 10 ^ 15)"
    unfolding d_def using c eps by (intro mult_mono) simp_all
  then have d: "d \<le> 1 / 10 ^ 6" by simp
  have q_err: "\<bar>q - c\<bar> \<le> d"
    using round53_error [OF c0] by (simp add: q_def c_def d_def eps_def)
  have q_lo: "c - d \<le> q" and q_hi: "q \<le> c + d"
    using q_err by (simp_all add: abs_le_iff algebra_simps)
  have "1 / 10 \<le> q" using q_lo c(1) d by simp
  then show q0: "0 < q" by simp
  have q_le: "q \<le> 10 ^ 9 + 1" using q_hi c(2) d by simp
  then show "q < 2 ^ 1024" by (rule le_less_trans) simp
  have x0: "0 < x" using q0 by (simp add: x_def)
  have x_le: "x \<le> (10 ^ 9 + 1) * 192000" using q_le by (simp add: x_def)
  have "d' \<le> (10 ^ 9 + 1) * 192000 * (1 / 10 ^ 15)"
    unfolding d'_def using x_le x0 eps by (intro mult_mono) simp_all
  then have d': "d' \<le> 2 / 10" by simp
  have p_err: "\<bar>p - x\<bar> \<le> d'"
    using round53_error [OF x0] by (simp add: p_def x_def d'_def eps_def)
  have "x - b * 192 = (q - c) * 192000" by (simp add: x_def c_def algebra_simps)
  then have "\<bar>x - b * 192\<bar> = \<bar>q - c\<bar> * \<bar>192000\<bar>" by (simp only: abs_mult)
  then have "\<bar>x - b * 192\<bar> = \<bar>q - c\<bar> * 192000" by simp
  also have "\<dots> \<le> d * 192000" using q_err by (intro mult_right_mono) simp_all
  also have "\<dots> \<le> 1 / 10 ^ 6 * 192000" using d by (intro mult_right_mono) simp_all
  finally have qe: "\<bar>x - b * 192\<bar> \<le> 2 / 10" by simp
  have "\<bar>p - b * 192\<bar> \<le> \<bar>p - x\<bar> + \<bar>x - b * 192\<bar>" by simp
  then have pb4: "\<bar>p - b * 192\<bar> \<le> 4 / 10" using p_err d' qe by simp
  then show pb: "\<bar>p - b * 192\<bar> < 1" by simp
  have lo: "b * 192 - 4 / 10 \<le> p" and hi: "p \<le> b * 192 + 4 / 10"
    using pb4 by linarith+
  have "38399 \<le> p" using lo assms(1) by linarith
  then show "0 < p" by linarith
  have "p \<le> 10 ^ 12 * 192 + 4 / 10" using hi assms(2) by linarith
  then have "p \<le> 10 ^ 15" by simp
  then show "p < 2 ^ 1024" by (rule le_less_trans) simp
qed

lemma round53_6: "round53 6 = 6"
  by (simp add: round53_def pow2_below_def pow2_up.simps round_half_even_def Let_def)

lemma round53_1152000: "round53 1152000 = 1152000"
  by (simp add: round53_def pow2_below_def pow2_up.simps round_half_even_def Let_def)

lemma floor_rat_numeral:
  "\<lfloor>(numeral a / numeral b :: rat)\<rfloor> = numeral a div numeral b"
  using floor_divide_of_int_eq [of "numeral a" "numeral b", where ?'a = rat] by simp

lemma round53_282: "round53 (282 / 1000) = 5080060379673919 / 18014398509481984"
  by (simp add: round53_def pow2_below_def pow2_down.simps round_half_even_def Let_def floor_rat_numeral)

lemma round53_282_bytes:
  "round53 (5080060379673919 / 18014398509481984 * 192000) = 7441494696787967 / 137438953472"
  by (simp add: round53_def pow2_below_def pow2_up.simps round_half_even_def Let_def floor_rat_numeral)

lemma resolve_default: "resolveMaxBufferedBytes None = Num 1152000"
  by (simp add: resolveMaxBufferedBytes_def bytesPerSecond DEFAULT_MAX_BUFFERED_MS_def
      MIN_BUFFERED_MS_def to_double_def round53_6 round53_1152000)

lemma resolve_282: "resolveMaxBufferedBytes (Some (Num 282)) = Num 54143"
proof -
  have "to_double (282 / 1000) = Num (5080060379673919 / 18014398509481984)"
    unfolding to_double_def round53_282 by simp
  moreover have "to_double (5080060379673919 / 18014398509481984 * 192000)
                 = Num (7441494696787967 / 137438953472)"
    unfolding to_double_def round53_282_bytes by simp
  ultimately show ?thesis
    unfolding resolveMaxBufferedBytes_def bytesPerSecond MIN_BUFFERED_MS_def Let_def
    by (simp add: floor_rat_numeral)
qed

text \<open>At 200 ms and at 1001 ms: 38400 and 192191 bytes.\<close>

lemma round53_200: "round53 (200 / 1000) = 3602879701896397 / 18014398509481984"
  by (simp add: round53_def pow2_below_def pow2_down.simps round_half_even_def Let_def floor_rat_numeral)

lemma round53_200_bytes:
  "round53 (3602879701896397 / 18014398509481984 * 192000) = 38400"
  by (simp add: round53_def pow2_below_def pow2_up.simps round_half_even_def Let_def floor_rat_numeral)

lemma resolve_200: "resolveMaxBufferedBytes (Some (Num 200)) = Num 38400"
proof -
  have "to_double (200 / 1000) = Num (3602879701896397 / 18014398509481984)"
    unfolding to_double_def round53_200 by simp
  moreover have "to_double (3602879701896397 / 18014398509481984 * 192000) = Num (38400)"
    unfolding to_double_def round53_200_bytes by simp
  ultimately show ?thesis
    unfolding resolveMaxBufferedBytes_def bytesPerSecond MIN_BUFFERED_MS_def Let_def
    by (simp add: floor_rat_numeral)
qed

lemma round53_1001: "round53 (1001 / 1000) = 2254051613498933 / 2251799813685248"
  by (simp add: round53_def pow2_below_def pow2_up.simps round_half_even_def Let_def floor_rat_numeral)

lemma round53_1001_bytes:
  "round53 (2254051613498933 / 2251799813685248 * 192000) = 6603666836422655 / 34359738368"
  by (simp add: round53_def pow2_below_def pow2_up.simps round_half_even_def Let_def floor_rat_numeral)

lemma resolve_1001: "resolveMaxBufferedBytes (Some (Num 1001)) = Num 192191"
proof -
  have "to_double (1001 / 1000) = Num (2254051613498933 / 2251799813685248)"
    unfolding to_double_def round53_1001 by simp
  moreover have "to_double (2254051613498933 / 2251799813685248 * 192000) = Num (6603666836422655 / 34359738368)"
    unfolding to_double_def round53_1001_bytes by simp
  ultimately show ?thesis
    unfolding resolveMaxBufferedBytes_def bytesPerSecond MIN_BUFFERED_MS_def Let_def
    by (simp add: floor_rat_numeral)
qed

lemma resolve_not_finite:
  "resolveMaxBufferedBytes (Some NaN) = NaN"
  "resolveMaxBufferedBytes (Some Infinity) = Infinity"
  by (simp_all add: resolveMaxBufferedBytes_def)

lemma resolve_finite:
  assumes "m \<le> 10 ^ 12"
  defines "p \<equiv> round53 (round53 (max 200 m / 1000) * 192000)"
  shows "resolveMaxBufferedBytes (Some (Num m)) = Num (of_int \<lfloor>p\<rfloor>)"
    and "38399 \<le> \<lfloor>p\<rfloor>"
    and "\<bar>p - max 200 m * 192\<bar> < 1"
proof -
  define b where "b = max 200 m"
  define q where "q = round53 (b / 1000)"
  have b: "200 \<le> b" "b \<le> 10 ^ 12" using assms(1) by (simp_all add: b_def)
  have p: "p = round53 (q * 192000)" by (simp add: p_def q_def b_def)
  note e = double_product_error [OF b, folded q_def, folded p]
  show err: "\<bar>p - max 200 m * 192\<bar> < 1" using e(5) by (simp add: b_def)
  have "38400 \<le> b * 192" using b(1) by simp
  then have "38399 \<le> p" using e(5) by linarith
  then have "of_int 38399 \<le> p" by simp
  then show fl: "38399 \<le> \<lfloor>p\<rfloor>" by (simp only: le_floor_iff)
  have dq: "to_double (b / 1000) = Num q"
    using e(1,2) b(1) by (simp add: to_double_def q_def)
  have dp: "to_double (q * 192000) = Num p"
    using e(1,3,4) by (simp add: to_double_def p)
  have "(32768 :: rat) \<le> of_int \<lfloor>p\<rfloor>" using fl by simp
  then have "max 32768 (of_int \<lfloor>p\<rfloor>) = (of_int \<lfloor>p\<rfloor> :: rat)" by (rule max_absorb2)
  then show "resolveMaxBufferedBytes (Some (Num m)) = Num (of_int \<lfloor>p\<rfloor>)"
    unfolding resolveMaxBufferedBytes_def bytesPerSecond MIN_BUFFERED_MS_def Let_def
    by (simp add: b_def [symmetric] dq dp)
qed

text \<open>
  Claim C8, as the code has it. With the argument left out the capacity is 1152000
  bytes. For a finite argument of at most \<open>10 ^ 12\<close> ms the capacity is
  \<open>max(32768, floor(boundedMs / 1000 * 48000 * 2 * 2))\<close> with \<open>boundedMs\<close> the
  argument clamped below at 200, where the quotient and the product are each rounded to
  a double; that number is within one byte of the same formula in exact arithmetic, and
  not above it when \<open>boundedMs\<close> is a whole number of milliseconds.
\<close>

theorem buffer_capacity_rounded:
  "resolveMaxBufferedBytes None = Num 1152000 \<and>
   (m \<le> 10 ^ 12 \<longrightarrow>
      resolveMaxBufferedBytes (Some (Num m)) =
        Num (max 32768
               (of_int \<lfloor>round53 (round53 (max 200 m / 1000) * (48000 * 2 * 2))\<rfloor>)) \<and>
      (\<exists>c. resolveMaxBufferedBytes (Some (Num m)) = Num (of_int c) \<and>
           \<bar>c - max 32768 \<lfloor>max 200 m / 1000 * 48000 * 2 * 2\<rfloor>\<bar> \<le> 1 \<and>
           (max 200 m \<in> \<int> \<longrightarrow> c \<le> max 32768 \<lfloor>max 200 m / 1000 * 48000 * 2 * 2\<rfloor>)))"
proof (intro conjI impI)
  show "resolveMaxBufferedBytes None = Num 1152000" by (rule resolve_default)
next
  assume m: "m \<le> 10 ^ 12"
  define b where "b = max 200 m"
  define p where "p = round53 (round53 (b / 1000) * 192000)"
  note r = resolve_finite [OF m, folded b_def, folded p_def]
  have exact: "b / 1000 * 48000 * 2 * 2 = b * 192" by simp
  have "(32768 :: rat) \<le> of_int \<lfloor>p\<rfloor>" using r(2) by simp
  then have mx: "max 32768 (of_int \<lfloor>p\<rfloor>) = (of_int \<lfloor>p\<rfloor> :: rat)" by (rule max_absorb2)
  show "resolveMaxBufferedBytes (Some (Num m)) =
        Num (max 32768
               (of_int \<lfloor>round53 (round53 (max 200 m / 1000) * (48000 * 2 * 2))\<rfloor>))"
    using r(1) mx by (simp add: p_def b_def)
  have "200 \<le> b" by (simp add: b_def)
  then have "38400 \<le> b * 192" by simp
  then have "of_int 38400 \<le> b * 192" by simp
  then have "38400 \<le> \<lfloor>b * 192\<rfloor>" by (simp only: le_floor_iff)
  then have ex: "max 32768 \<lfloor>b * 192\<rfloor> = \<lfloor>b * 192\<rfloor>" by simp
  have near: "\<bar>\<lfloor>p\<rfloor> - \<lfloor>b * 192\<rfloor>\<bar> \<le> 1" using r(3) by (rule floor_near)
  have whole: "\<lfloor>p\<rfloor> \<le> \<lfloor>b * 192\<rfloor>" if "b \<in> \<int>"
  proof -
    from that obtain n where n: "b = of_int n" by (auto elim: Ints_cases)
    have eq: "b * 192 = of_int (n * 192)" by (simp add: n)
    have "\<bar>p - of_int (n * 192)\<bar> < 1" using r(3) unfolding eq .
    moreover have "\<lfloor>b * 192\<rfloor> = n * 192" unfolding eq by (rule floor_of_int)
    ultimately show ?thesis using floor_near_int [of p "n * 192"] by auto
  qed
  show "\<exists>c. resolveMaxBufferedBytes (Some (Num m)) = Num (of_int c) \<and>
           \<bar>c - max 32768 \<lfloor>max 200 m / 1000 * 48000 * 2 * 2\<rfloor>\<bar> \<le> 1 \<and>
           (max 200 m \<in> \<int> \<longrightarrow> c \<le> max 32768 \<lfloor>max 200 m / 1000 * 48000 * 2 * 2\<rfloor>)"
    unfolding b_def [symmetric] exact ex
    using r(1) near whole by blast
qed

text \<open>
  The theorem at 282 ms: the capacity is one byte below 54144.
\<close>

theorem buffer_capacity_rounded_witness:
  "(282 :: rat) \<le> 10 ^ 12 \<and> max 200 (282 :: rat) \<in> \<int> \<and>
   (\<exists>c. resolveMaxBufferedBytes (Some (Num 282)) = Num (of_int c) \<and>
        \<bar>c - 54144\<bar> \<le> 1 \<and> c \<le> 54144)"
proof -
  have h: "(282 :: rat) \<le> 10 ^ 12" by simp
  have i: "max 200 (282 :: rat) \<in> \<int>" by simp
  have v: "max 32768 \<lfloor>max 200 (282 :: rat) / 1000 * 48000 * 2 * 2\<rfloor> = 54144" by simp
  from buffer_capacity_rounded [of 282] h
  obtain c where "resolveMaxBufferedBytes (Some (Num 282)) = Num (of_int c)"
    "\<bar>c - max 32768 \<lfloor>max 200 (282 :: rat) / 1000 * 48000 * 2 * 2\<rfloor>\<bar> \<le> 1"
    "max 200 (282 :: rat) \<in> \<int> \<longrightarrow>
       c \<le> max 32768 \<lfloor>max 200 (282 :: rat) / 1000 * 48000 * 2 * 2\<rfloor>"
    by blast
  then show ?thesis using h i unfolding v by blast
qed

text \<open>
  Claim C8 as it is stated, with the formula read in exact arithmetic: at 282 ms the
  formula gives 54144 bytes and the code 54143, because 282 / 1000 is not a double.
\<close>

theorem buffer_capacity_counterexample:
  "resolveMaxBufferedBytes (Some (Num 282)) = Num 54143 \<and>
   max 32768 \<lfloor>max 200 (282 :: rat) / 1000 * 48000 * 2 * 2\<rfloor> = 54144"
  using resolve_282 by simp

section \<open>Properties of the PCM transform\<close>

lemma le16_mod:
  fixes x y v :: int
  assumes "0 \<le> x" "x < 256" "0 \<le> y" "y < 256"
    and "v = (if 32768 \<le> x + y * 256 then x + y * 256 - 65536 else x + y * 256)"
  shows "v mod 256 = x" and "(v div 256) mod 256 = y"
proof -
  define k where "k = (if 32768 \<le> x + y * 256 then y - 256 else y)"
  have k: "v = x + k * 256" "k = y \<or> k = y - 256"
    using assms(5) by (auto simp: k_def)
  show "v mod 256 = x" using k(1) assms(1,2) by simp
  have "v div 256 = k" using k(1) assms(1,2) by simp
  moreover have "k mod 256 = y" using k(2) assms(3,4) by auto
  ultimately show "(v div 256) mod 256 = y" by simp
qed

lemma readInt16LE_value:
  assumes "readInt16LE buf off = Inr v"
  obtains x y where "x = uint (buf ! off)" "y = uint (buf ! (off + 1))"
    "0 \<le> x" "x < 256" "0 \<le> y" "y < 256"
    "v = (if 32768 \<le> x + y * 256 then x + y * 256 - 65536 else x + y * 256)"
proof -
  have a: "uint (buf ! off) < 256" 
    using uint_lt2p [of "buf ! off"] by simp
  have b: "uint (buf ! (off + 1)) < 256" 
    using uint_lt2p [of "buf ! (off + 1)"] by simp
  have "v = (if 32768 \<le> uint (buf ! off) + uint (buf ! (off + 1)) * 256
             then uint (buf ! off) + uint (buf ! (off + 1)) * 256 - 65536
             else uint (buf ! off) + uint (buf ! (off + 1)) * 256)"
    using assms by (auto simp: readInt16LE_def Let_def split: if_splits)
  then show thesis using that a b by simp
qed

lemma readInt16LE_range:
  assumes "readInt16LE buf off = Inr v"
  shows "- (2 ^ 15) \<le> v \<and> v \<le> 2 ^ 15 - 1"
proof -
  from assms obtain x y where xy: "0 \<le> x" "x < 256" "0 \<le> y" "y < 256"
    "v = (if 32768 \<le> x + y * 256 then x + y * 256 - 65536 else x + y * 256)"
    by (rule readInt16LE_value)
  then show ?thesis by (simp split: if_splits)
qed

lemma readInt16LE_bytes:
  assumes "readInt16LE buf off = Inr v"
  shows "(word_of_int v :: byte) = buf ! off"
    and "(word_of_int (v div 2 ^ 8) :: byte) = buf ! (off + 1)"
proof -
  from assms obtain x y where xy: "x = uint (buf ! off)" "y = uint (buf ! (off + 1))" 
    "0 \<le> x" "x < 256" "0 \<le> y" "y < 256"
    "v = (if 32768 \<le> x + y * 256 then x + y * 256 - 65536 else x + y * 256)"
    by (rule readInt16LE_value)
  have m1: "v mod 256 = x" and m2: "(v div 256) mod 256 = y"
    using le16_mod [OF xy(3-7)] by simp_all
  have "uint (word_of_int v :: byte) = uint (buf ! off)"
    using m1 by (simp add: uint_word_of_int xy(1))
  then show "(word_of_int v :: byte) = buf ! off" by (simp add: word_uint_eq_iff)
  have "uint (word_of_int (v div 2 ^ 8) :: byte) = uint (buf ! (off + 1))"
    using m2 by (simp add: uint_word_of_int xy(2))
  then show "(word_of_int (v div 2 ^ 8) :: byte) = buf ! (off + 1)" by (simp add: word_uint_eq_iff)
qed

lemma readInt16LE_ok:
  "off + 2 \<le> length buf \<Longrightarrow> \<exists>v. readInt16LE buf off = Inr v"
  by (simp add: readInt16LE_def Let_def)

lemma update4:
  assumes "off + 4 \<le> length out"
  shows "out[off := a, off + 1 := b, off + 2 := c, off + 3 := d]
         = take off out @ [a, b, c, d] @ drop (off + 4) out"
  using assms
  by (intro nth_equalityI) (auto simp: nth_append nth_list_update less_Suc_eq_le)

lemma write_pair:
  assumes "- (2 ^ 15) \<le> l" "l \<le> 2 ^ 15 - 1" "- (2 ^ 15) \<le> r" "r \<le> 2 ^ 15 - 1"
    and "off + 4 \<le> length out"
  shows "\<exists>out1. writeInt16LE out l off = Inr out1 \<and>
           writeInt16LE out1 r (off + 2) =
             Inr (take off out @
                  [word_of_int l, word_of_int (l div 2 ^ 8), word_of_int r, word_of_int (r div 2 ^ 8)]
                  @ drop (off + 4) out)"
proof -
  have "writeInt16LE out l off = Inr (out[off := word_of_int l, off + 1 := word_of_int (l div 2 ^ 8)])"
    using assms by (simp add: writeInt16LE_def)
  moreover have "writeInt16LE (out[off := word_of_int l, off + 1 := word_of_int (l div 2 ^ 8)]) r (off + 2)
      = Inr (out[off := word_of_int l, off + 1 := word_of_int (l div 2 ^ 8),
                 off + 2 := word_of_int r, off + 3 := word_of_int (r div 2 ^ 8)])"
    using assms by (simp add: writeInt16LE_def numeral_3_eq_3)
  ultimately show ?thesis using update4 [OF assms(5)] by simp
qed

lemma splice_take:
  "length fr = n \<Longrightarrow> off + n \<le> length out \<Longrightarrow>
   take (off + n) (take off out @ fr @ drop (off + n) out) = take off out @ fr"
  by simp

lemma splice_drop:
  "length fr = n \<Longrightarrow> off + n \<le> length out \<Longrightarrow>
   drop (off + n + m) (take off out @ fr @ drop (off + n) out) = drop (off + n + m) out"
  by (simp add: add.commute)

lemma write_copies_fills:
  assumes "- (2 ^ 15) \<le> l" "l \<le> 2 ^ 15 - 1" "- (2 ^ 15) \<le> r" "r \<le> 2 ^ 15 - 1"
    and "fr = [word_of_int l, word_of_int (l div 2 ^ 8), word_of_int r, word_of_int (r div 2 ^ 8)]"
  shows "off + 4 * k \<le> length out \<Longrightarrow>
         write_copies k l r out off =
           Inr (take off out @ concat (replicate k fr) @ drop (off + 4 * k) out, off + 4 * k)"
proof (induction k arbitrary: out off)
  case 0
  then show ?case by simp
next
  case (Suc k)
  have len: "off + 4 \<le> length out" using Suc.prems by simp
  have lfr: "length fr = 4" by (simp add: assms(5))
  define out2 where "out2 = take off out @ fr @ drop (off + 4) out"
  obtain out1 where w1: "writeInt16LE out l off = Inr out1"
    and w2: "writeInt16LE out1 r (off + 2) = Inr out2"
    using write_pair [OF assms(1-4) len] unfolding out2_def assms(5) by blast
  have l2: "length out2 = length out" using len lfr by (simp add: out2_def)
  have t: "take (off + 4) out2 = take off out @ fr"
    unfolding out2_def using lfr len by (rule splice_take)
  have "drop (off + 4 + 4 * k) out2 = drop (off + 4 + 4 * k) out"
    unfolding out2_def using lfr len by (rule splice_drop)
  then have d: "drop (off + 4 + 4 * k) out2 = drop (off + 4 * Suc k) out"
    by (simp add: add.assoc)
  have "off + 4 + 4 * k \<le> length out2" using Suc.prems l2 by simp
  then have "write_copies k l r out2 (off + 4) =
          Inr (take (off + 4) out2 @ concat (replicate k fr) @ drop (off + 4 + 4 * k) out2,
               off + 4 + 4 * k)"
    by (rule Suc.IH)
  then have ih: "write_copies k l r out2 (off + 4) =
          Inr (take off out @ concat (replicate (Suc k) fr) @ drop (off + 4 * Suc k) out,
               off + 4 * Suc k)"
    unfolding t d by simp
  show ?case
    by (simp only: write_copies.simps w1 w2 sum.case ih)
qed


lemma frame_fits:
  fixes frame inputFrames fb :: nat
  assumes "frame < inputFrames" "inputFrames * fb \<le> n"
  shows "frame * fb + fb \<le> n"
proof -
  have "Suc frame * fb \<le> inputFrames * fb"
    using assms(1) by (intro mult_le_mono1) simp
  then show ?thesis using assms(2) by simp
qed

lemma read_frame:
  assumes fb: "frameBytes t = inputChannels t * 2" "0 < inputChannels t"
    and fits: "frame * frameBytes t + frameBytes t \<le> length input"
  shows "\<exists>left right.
           readInt16LE input (frame * frameBytes t) = Inr left \<and>
           (if inputChannels t = 2 then readInt16LE input (frame * frameBytes t + 2) else Inr left)
             = Inr right \<and>
           - (2 ^ 15) \<le> left \<and> left \<le> 2 ^ 15 - 1 \<and> - (2 ^ 15) \<le> right \<and> right \<le> 2 ^ 15 - 1 \<and>
           stereo_frame t input frame =
             [word_of_int left, word_of_int (left div 2 ^ 8),
              word_of_int right, word_of_int (right div 2 ^ 8)]"
proof -
  let ?base = "frame * frameBytes t"
  have "?base + 2 \<le> length input" using fb fits by simp
  then obtain left where l: "readInt16LE input ?base = Inr left"
    using readInt16LE_ok by blast
  note lr = readInt16LE_range [OF l] and lb = readInt16LE_bytes [OF l]
  show ?thesis
  proof (cases "inputChannels t = 2")
    case True
    then have "?base + 2 + 2 \<le> length input" using fb fits by simp
    then obtain right where r: "readInt16LE input (?base + 2) = Inr right"
      using readInt16LE_ok by blast
    note rr = readInt16LE_range [OF r] and rb = readInt16LE_bytes [OF r]
    show ?thesis
      using True l r lr rr lb rb by (simp add: stereo_frame_def Let_def numeral_3_eq_3)
  next
    case False
    then show ?thesis
      using l lr lb by (simp add: stereo_frame_def Let_def)
  qed
qed

lemma frame_loop_fills:
  assumes fb: "frameBytes t = inputChannels t * 2" "0 < inputChannels t"
    and len_in: "inputFrames * frameBytes t \<le> length input"
  shows "frame \<le> inputFrames \<Longrightarrow> length out = inputFrames * up * 4 \<Longrightarrow>
         off = frame * up * 4 \<Longrightarrow>
         frame_loop t input inputFrames up frame out off =
           Inr (take off out @ upsampled t input up frame inputFrames)"
proof (induction "inputFrames - frame" arbitrary: frame out off)
  case 0
  then have "frame = inputFrames" by simp
  then show ?case
    using "0.prems" by (subst frame_loop.simps) (simp add: upsampled_def)
next
  case (Suc n)
  then have lt: "frame < inputFrames" by simp
  have fits: "frame * frameBytes t + frameBytes t \<le> length input"
    using lt len_in by (rule frame_fits)
  obtain left right where l: "readInt16LE input (frame * frameBytes t) = Inr left"
    and r: "(if inputChannels t = 2 then readInt16LE input (frame * frameBytes t + 2) else Inr left)
             = Inr right"
    and rng: "- (2 ^ 15) \<le> left" "left \<le> 2 ^ 15 - 1" "- (2 ^ 15) \<le> right" "right \<le> 2 ^ 15 - 1"
    and sf: "stereo_frame t input frame =
             [word_of_int left, word_of_int (left div 2 ^ 8),
              word_of_int right, word_of_int (right div 2 ^ 8)]"
    using read_frame [OF fb fits] by blast
  define out' where
    "out' = take off out @ concat (replicate up (stereo_frame t input frame))
                 @ drop (off + 4 * up) out"
  have "frame * up + up \<le> inputFrames * up"
    using lt order_refl by (rule frame_fits)
  then have room: "off + 4 * up \<le> length out"
    using Suc.prems by simp
  have w: "write_copies up left right out off = Inr (out', off + 4 * up)"
    unfolding out'_def using rng sf room by (rule write_copies_fills)
  have len': "length out' = inputFrames * up * 4"
    using room Suc.prems by (simp add: out'_def length_concat sum_list_replicate stereo_frame_def Let_def)
  have ih: "frame_loop t input inputFrames up (frame + 1) out' (off + 4 * up) =
          Inr (take (off + 4 * up) out' @ upsampled t input up (frame + 1) inputFrames)"
    using Suc.hyps(2) lt len' Suc.prems(3) by (intro Suc.hyps(1)) simp_all
  have lrep: "length (concat (replicate up (stereo_frame t input frame))) = 4 * up"
    by (simp add: length_concat sum_list_replicate stereo_frame_def Let_def)
  have tk: "take (off + 4 * up) out' = take off out @ concat (replicate up (stereo_frame t input frame))"
    unfolding out'_def using lrep room by (rule splice_take)
  have ups: "upsampled t input up frame inputFrames =
             concat (replicate up (stereo_frame t input frame)) @ upsampled t input up (frame + 1) inputFrames"
    using lt by (simp add: upsampled_def upt_conv_Cons)
  have "frame_loop t input inputFrames up frame out off =
        frame_loop t input inputFrames up (frame + 1) out' (off + 4 * up)"
    using lt l r w by (subst frame_loop.simps) (simp add: Let_def)
  then show ?case
    by (simp only: ih tk ups append_assoc)
qed


lemma stereo_frame_cong:
  assumes "frameBytes t = inputChannels t * 2" "0 < inputChannels t"
    and "\<And>i. i < frameBytes t \<Longrightarrow> a ! (f * frameBytes t + i) = b ! (g * frameBytes t + i)"
  shows "stereo_frame t a f = stereo_frame t b g"
proof -
  have "a ! (f * frameBytes t + 0) = b ! (g * frameBytes t + 0)"
       "a ! (f * frameBytes t + 1) = b ! (g * frameBytes t + 1)"
    using assms(1,2) by (intro assms(3); simp)+
  moreover have "inputChannels t = 2 \<Longrightarrow>
       a ! (f * frameBytes t + 2) = b ! (g * frameBytes t + 2) \<and>
       a ! (f * frameBytes t + 3) = b ! (g * frameBytes t + 3)"
    using assms(1) by (intro conjI assms(3); simp)
  ultimately show ?thesis
    by (simp add: stereo_frame_def Let_def)
qed

lemma upsampled_prefix:
  assumes "frameBytes t = inputChannels t * 2" "0 < inputChannels t"
    and "hi * frameBytes t \<le> length a"
  shows "upsampled t (a @ b) up lo hi = upsampled t a up lo hi"
proof -
  have "stereo_frame t (a @ b) f = stereo_frame t a f" if "f < hi" for f
  proof (rule stereo_frame_cong [OF assms(1,2)])
    fix i assume "i < frameBytes t"
    moreover have "f * frameBytes t + frameBytes t \<le> length a"
      using that assms(3) by (rule frame_fits)
    ultimately show "(a @ b) ! (f * frameBytes t + i) = a ! (f * frameBytes t + i)"
      by (simp add: nth_append)
  qed
  then show ?thesis
    unfolding upsampled_def by (intro arg_cong [where f = concat] map_cong) simp_all
qed

lemma upsampled_shift:
  assumes "frameBytes t = inputChannels t * 2" "0 < inputChannels t"
    and "length a = n * frameBytes t"
  shows "upsampled t (a @ b) up n (n + m) = upsampled t b up 0 m"
proof -
  have sf: "stereo_frame t (a @ b) (j + n) = stereo_frame t b j" for j
  proof (rule stereo_frame_cong [OF assms(1,2)])
    fix i
    have "(j + n) * frameBytes t + i = length a + (j * frameBytes t + i)"
      using assms(3) by (simp add: add_mult_distrib)
    then show "(a @ b) ! ((j + n) * frameBytes t + i) = b ! (j * frameBytes t + i)"
      by (simp only: nth_append_length_plus)
  qed
  have "[n..<n + m] = map (\<lambda>j. j + n) [0..<m]"
    by (simp add: map_add_upt add.commute)
  then show ?thesis
    unfolding upsampled_def by (simp add: comp_def sf)
qed

lemma upsampled_split:
  "lo \<le> mid \<Longrightarrow> mid \<le> hi \<Longrightarrow>
   upsampled t a up lo hi = upsampled t a up lo mid @ upsampled t a up mid hi"
proof -
  assume "lo \<le> mid" "mid \<le> hi"
  then have "[lo..<hi] = [lo..<mid] @ [mid..<hi]"
    by (metis le_Suc_ex upt_add_eq_append)
  then show ?thesis by (simp add: upsampled_def)
qed

lemma length_upsampled:
  "length (upsampled t a up lo hi) = (hi - lo) * up * 4"
  by (induction hi) (simp_all add: upsampled_def length_concat sum_list_replicate stereo_frame_def Let_def
      Suc_diff_le add_mult_distrib)


lemma resampled_carry [simp]: "resampled (t\<lparr>carry := c\<rparr>) bytes = resampled t bytes"
  by (simp add: resampled_def upsampled_def stereo_frame_def upsampleFactor_of_def)

lemma usableLength_carry [simp]: "usableLength_of (t\<lparr>carry := c\<rparr>) bytes = usableLength_of t bytes"
  by (simp add: usableLength_of_def)

lemma well_formed_carry [simp]: "well_formed (t\<lparr>carry := c\<rparr>) = well_formed t"
  by (simp add: well_formed_def)

lemma usableLength_eq:
  "usableLength_of t bytes = (length bytes div frameBytes t) * frameBytes t"
  by (simp add: usableLength_of_def minus_mod_eq_div_mult)

lemma length_resampled:
  "length (resampled t bytes) = (length bytes div frameBytes t) * upsampleFactor_of t * 4"
  by (simp add: resampled_def length_upsampled)

lemma transform_ok:
  assumes wf: "well_formed t" and full_def: "full = carry t @ chunk"
  shows "PcmTransform_transform t chunk =
           \<lparr>after = t\<lparr>carry := drop (usableLength_of t full) full\<rparr>,
            pushed = (if usableLength_of t full = 0 then [] else [resampled t full]),
            callback_error = None\<rparr>"
proof -
  have fb: "frameBytes t = inputChannels t * 2" "0 < inputChannels t"
    using wf by (simp_all add: well_formed_def)
  then have fb0: "frameBytes t \<noteq> 0" by simp
  have fc: "(if length (carry t) > 0 then carry t @ chunk else chunk) = full"
    by (simp add: full_def)
  define usable where "usable = usableLength_of t full"
  define n where "n = length full div frameBytes t"
  have un: "usable = n * frameBytes t"
    by (simp add: usable_def n_def usableLength_eq)
  have ule: "usable \<le> length full"
    by (simp add: usable_def usableLength_of_def)
  have cr: "(if usable < length full then drop usable full else []) = drop usable full"
    using ule by simp
  have ln: "length (take usable full) div frameBytes t = n"
    using ule fb0 by (simp add: un min_absorb2)
  have "n * frameBytes t \<le> length (take usable full)"
    using ule by (simp add: un)
  moreover have "length (allocUnsafe (n * upsampleFactor_of t * DISCORD_CHANNELS * PCM_SAMPLE_BYTES))
                 = n * upsampleFactor_of t * 4"
    by (simp add: allocUnsafe_def DISCORD_CHANNELS_def PCM_SAMPLE_BYTES_def)
  ultimately have loop: "frame_loop t (take usable full) n (upsampleFactor_of t) 0
                (allocUnsafe (n * upsampleFactor_of t * DISCORD_CHANNELS * PCM_SAMPLE_BYTES)) 0 =
             Inr (take 0 (allocUnsafe (n * upsampleFactor_of t * DISCORD_CHANNELS * PCM_SAMPLE_BYTES))
                  @ upsampled t (take usable full) (upsampleFactor_of t) 0 n)"
    using fb by (intro frame_loop_fills) simp_all
  have "upsampled t (take usable full @ drop usable full) (upsampleFactor_of t) 0 n
        = upsampled t (take usable full) (upsampleFactor_of t) 0 n"
    using fb ule by (intro upsampled_prefix) (simp_all add: un)
  then have res: "upsampled t (take usable full) (upsampleFactor_of t) 0 n = resampled t full"
    by (simp add: resampled_def n_def)
  have loop': "frame_loop t (take usable full) n (upsampleFactor_of t) 0
                (allocUnsafe (n * upsampleFactor_of t * DISCORD_CHANNELS * PCM_SAMPLE_BYTES)) 0 =
               Inr (resampled t full)"
    using loop res by simp
  have U: "length full - length full mod frameBytes t = usable"
    by (simp add: usable_def usableLength_of_def)
  have UP: "(if inputSampleRate t = DISCORD_SAMPLE_RATE then 1 else 2) = upsampleFactor_of t"
    by (simp add: upsampleFactor_of_def)
  show ?thesis
    unfolding PcmTransform_transform_def Let_def fc U UP cr ln loop'
    using fb0 by (simp add: usable_def)
qed

lemma resampled_append:
  assumes wf: "well_formed t"
  shows "resampled t (xs @ ys) =
         resampled t xs @ resampled t (drop (usableLength_of t xs) xs @ ys)"
proof -
  have fb: "frameBytes t = inputChannels t * 2" "0 < inputChannels t"
    using wf by (simp_all add: well_formed_def)
  then have fb0: "0 < frameBytes t" by simp
  define up where "up = upsampleFactor_of t"
  define nx where "nx = length xs div frameBytes t"
  define a where "a = take (usableLength_of t xs) xs"
  define b where "b = drop (usableLength_of t xs) xs @ ys"
  define m where "m = length b div frameBytes t"
  have ab: "xs @ ys = a @ b" by (simp add: a_def b_def)
  have ule: "usableLength_of t xs \<le> length xs" by (simp add: usableLength_of_def)
  have la: "length a = nx * frameBytes t"
    using ule by (simp add: a_def nx_def usableLength_eq [symmetric])
  have nt: "length (a @ b) div frameBytes t = nx + m"
    using fb0 by (simp add: la m_def)
  have "resampled t (a @ b) = upsampled t (a @ b) up 0 (nx + m)"
    by (simp only: resampled_def nt up_def)
  also have "\<dots> = upsampled t (a @ b) up 0 nx @ upsampled t (a @ b) up nx (nx + m)"
    by (rule upsampled_split) simp_all
  also have "upsampled t (a @ b) up 0 nx = upsampled t a up 0 nx"
    using fb by (rule upsampled_prefix) (simp add: la)
  also have "upsampled t (a @ b) up nx (nx + m) = upsampled t b up 0 m"
    using fb la by (rule upsampled_shift)
  finally have 1: "resampled t (xs @ ys) = upsampled t a up 0 nx @ resampled t b"
    by (simp add: ab resampled_def m_def up_def)
  have "upsampled t (a @ drop (usableLength_of t xs) xs) up 0 nx = upsampled t a up 0 nx"
    using fb by (rule upsampled_prefix) (simp add: la)
  then have "upsampled t a up 0 nx = resampled t xs"
    by (simp add: a_def resampled_def nx_def up_def)
  with 1 show ?thesis by (simp add: b_def)
qed


lemma resampled_short:
  assumes "0 < frameBytes t" "usableLength_of t bytes = 0"
  shows "resampled t bytes = []"
proof -
  have "length bytes div frameBytes t * frameBytes t = 0"
    using assms(2) by (simp add: usableLength_eq)
  then have "length bytes div frameBytes t = 0" using assms(1) by simp
  then show ?thesis by (simp add: resampled_def upsampled_def)
qed

lemma usableLength_append:
  assumes "0 < frameBytes t"
  shows "usableLength_of t (xs @ ys) =
         usableLength_of t xs + usableLength_of t (drop (usableLength_of t xs) xs @ ys)"
proof -
  define nx where "nx = length xs div frameBytes t"
  have ux: "usableLength_of t xs = nx * frameBytes t"
    by (simp add: usableLength_eq nx_def)
  have ule: "usableLength_of t xs \<le> length xs" by (simp add: usableLength_of_def)
  have "length (xs @ ys) = nx * frameBytes t + length (drop (usableLength_of t xs) xs @ ys)"
    using ule by (simp add: ux)
  then have "length (xs @ ys) div frameBytes t =
             nx + length (drop (usableLength_of t xs) xs @ ys) div frameBytes t"
    using assms by (simp only: div_mult_self3) 
  then show ?thesis
    by (simp only: usableLength_eq ux add_mult_distrib nx_def)
qed

lemma drop_usable_append:
  assumes "0 < frameBytes t"
  shows "drop (usableLength_of t (xs @ ys)) (xs @ ys) =
         drop (usableLength_of t (drop (usableLength_of t xs) xs @ ys))
              (drop (usableLength_of t xs) xs @ ys)"
proof -
  have ule: "usableLength_of t xs \<le> length xs" by (simp add: usableLength_of_def)
  have "drop (usableLength_of t xs) (xs @ ys) = drop (usableLength_of t xs) xs @ ys"
    using ule by simp
  then have "drop (usableLength_of t (drop (usableLength_of t xs) xs @ ys))
               (drop (usableLength_of t xs) (xs @ ys)) =
             drop (usableLength_of t (drop (usableLength_of t xs) xs @ ys))
               (drop (usableLength_of t xs) xs @ ys)"
    by (rule arg_cong)
  then show ?thesis
    by (simp only: usableLength_append [OF assms, of xs ys] drop_drop add.commute)
qed

lemma feed_ok:
  assumes "well_formed t" "length (carry t) < frameBytes t"
  shows "\<exists>outs. feed t chunks =
            Inr (t\<lparr>carry := drop (usableLength_of t (carry t @ concat chunks))
                                (carry t @ concat chunks)\<rparr>, outs) \<and>
           concat outs = resampled t (carry t @ concat chunks)"
  using assms
proof (induction chunks arbitrary: t)
  case Nil
  have u0: "usableLength_of t (carry t) = 0"
    using Nil.prems(2) by (simp add: usableLength_of_def)
  moreover have "0 < frameBytes t" using Nil.prems(2) by simp
  ultimately have "resampled t (carry t) = []" by (intro resampled_short)
  then show ?case using u0 by simp
next
  case (Cons chunk chunks)
  have fb0: "0 < frameBytes t" using Cons.prems(2) by simp
  define full where "full = carry t @ chunk"
  define t1 where "t1 = t\<lparr>carry := drop (usableLength_of t full) full\<rparr>"
  have tr: "PcmTransform_transform t chunk =
           \<lparr>after = t1,
            pushed = (if usableLength_of t full = 0 then [] else [resampled t full]),
            callback_error = None\<rparr>"
    unfolding t1_def using Cons.prems(1) full_def by (rule transform_ok)
  have wf1: "well_formed t1" using Cons.prems(1) by (simp add: t1_def)
  have "length full - usableLength_of t full = length full mod frameBytes t"
    by (simp add: usableLength_of_def)
  then have small1: "length (carry t1) < frameBytes t1"
    using fb0 by (simp add: t1_def)
  obtain outs where f1: "feed t1 chunks =
            Inr (t1\<lparr>carry := drop (usableLength_of t1 (carry t1 @ concat chunks))
                                (carry t1 @ concat chunks)\<rparr>, outs)"
    and o1: "concat outs = resampled t1 (carry t1 @ concat chunks)"
    using Cons.IH [OF wf1 small1] by blast
  have c1: "carry t1 = drop (usableLength_of t full) full" by (simp add: t1_def)
  have fin: "t1\<lparr>carry := drop (usableLength_of t1 (carry t1 @ concat chunks))
                                (carry t1 @ concat chunks)\<rparr> =
             t\<lparr>carry := drop (usableLength_of t (carry t @ concat (chunk # chunks)))
                                (carry t @ concat (chunk # chunks))\<rparr>"
    using drop_usable_append [OF fb0, of full "concat chunks"]
    by (simp add: t1_def full_def)
  have push: "concat (if usableLength_of t full = 0 then [] else [resampled t full])
              = resampled t full"
    using resampled_short [OF fb0] by simp
  have "resampled t (full @ concat chunks) =
        resampled t full @ resampled t (drop (usableLength_of t full) full @ concat chunks)"
    using Cons.prems(1) by (rule resampled_append)
  then have outs: "concat ((if usableLength_of t full = 0 then [] else [resampled t full]) @ outs)
        = resampled t (carry t @ concat (chunk # chunks))"
    using o1 push by (simp add: t1_def full_def)
  have "feed t (chunk # chunks) =
        Inr (t1\<lparr>carry := drop (usableLength_of t1 (carry t1 @ concat chunks))
                                (carry t1 @ concat chunks)\<rparr>,
             (if usableLength_of t full = 0 then [] else [resampled t full]) @ outs)"
    by (simp add: tr f1 Let_def)
  then show ?case
    using fin outs by (intro exI [of _ "(if usableLength_of t full = 0 then [] else [resampled t full]) @ outs"]) simp
qed

lemma constructor_well_formed:
  assumes "PcmTransform_constructor rate channels = Inr t" "0 < channels"
  shows "well_formed t" "carry t = []" "frameBytes t = channels * 2"
    "inputSampleRate t = rate" "inputChannels t = channels"
  using assms
  by (auto simp: PcmTransform_constructor_def well_formed_def PCM_SAMPLE_BYTES_def split: if_splits)

subsection \<open>Claims about the transform\<close>

text \<open>
  Claim C1 (split-invariance). A transform built by the constructor, fed any list of
  chunks in order, emits in total the same bytes as when it is fed their concatenation
  as one chunk; and that is the conversion of every complete frame of the concatenation
  (no error on either side). It holds for any number of chunks, and so for two or more.
\<close>

theorem split_invariance:
  assumes "PcmTransform_constructor rate channels = Inr t" and "0 < channels"
  shows "emitted (feed t chunks) = emitted (feed t [concat chunks]) \<and>
         emitted (feed t chunks) = Inr (resampled t (concat chunks))"
proof -
  have wf: "well_formed t" and c: "carry t = []" and fb: "frameBytes t = channels * 2"
    using constructor_well_formed [OF assms] by simp_all
  have small: "length (carry t) < frameBytes t" using c fb assms(2) by simp
  have e: "emitted (feed t cs) = Inr (resampled t (concat cs))" for cs
    using feed_ok [OF wf small, of cs] by (auto simp: emitted_def c)
  show ?thesis using e [of chunks] e [of "[concat chunks]"] by simp
qed

theorem split_invariance_witness:
  "PcmTransform_constructor 24000 1 =
     Inr \<lparr>carry = [], frameBytes = 2, inputSampleRate = 24000, inputChannels = 1\<rparr> \<and>
   emitted (feed \<lparr>carry = [], frameBytes = 2, inputSampleRate = 24000, inputChannels = 1\<rparr>
              [[1, 2, 3], [4, 5], [6]]) =
   emitted (feed \<lparr>carry = [], frameBytes = 2, inputSampleRate = 24000, inputChannels = 1\<rparr>
              [concat [[1, 2, 3], [4, 5], [6]]])"
proof -
  have c: "PcmTransform_constructor 24000 1 =
     Inr \<lparr>carry = [], frameBytes = 2, inputSampleRate = 24000, inputChannels = 1\<rparr>"
    by (simp add: PcmTransform_constructor_def PCM_SAMPLE_BYTES_def)
  have p: "(0::nat) < 1" by simp
  show ?thesis using c split_invariance [OF c p, of "[[1, 2, 3], [4, 5], [6]]"] by blast
qed

text \<open>
  Claim C2. When the chunks together hold a whole number of frames
  (\<open>frameBytes = inputChannels * 2\<close>), the total output length is
  \<open>inputFrames * upsampleFactor * outputFrameBytes\<close>, where the output frame has
  \<open>DISCORD_CHANNELS * PCM_SAMPLE_BYTES = 4\<close> bytes, and the carry after the last chunk
  is empty.
\<close>

theorem aligned_output_length:
  assumes "PcmTransform_constructor rate channels = Inr t" and "0 < channels"
    and "length (concat chunks) mod frameBytes t = 0"
  shows "frameBytes t = channels * 2 \<and>
         (\<exists>t' outs. feed t chunks = Inr (t', outs) \<and>
            length (concat outs) =
              (length (concat chunks) div frameBytes t) * upsampleFactor_of t
                * (DISCORD_CHANNELS * PCM_SAMPLE_BYTES) \<and>
            carry t' = [])"
proof -
  have wf: "well_formed t" and c: "carry t = []" and fb: "frameBytes t = channels * 2"
    using constructor_well_formed [OF assms(1,2)] by simp_all
  have small: "length (carry t) < frameBytes t" using c fb assms(2) by simp
  obtain outs where f: "feed t chunks =
            Inr (t\<lparr>carry := drop (usableLength_of t (concat chunks)) (concat chunks)\<rparr>, outs)"
    and o: "concat outs = resampled t (concat chunks)"
    using feed_ok [OF wf small, of chunks] by (auto simp: c)
  have "usableLength_of t (concat chunks) = length (concat chunks)"
    using assms(3) by (simp add: usableLength_of_def)
  then have "carry (t\<lparr>carry := drop (usableLength_of t (concat chunks)) (concat chunks)\<rparr>) = []"
    by simp
  moreover have "length (concat outs) =
      (length (concat chunks) div frameBytes t) * upsampleFactor_of t * (DISCORD_CHANNELS * PCM_SAMPLE_BYTES)"
    by (simp only: o length_resampled DISCORD_CHANNELS_def PCM_SAMPLE_BYTES_def)
  ultimately show ?thesis using f fb by blast
qed

theorem aligned_output_length_witness:
  "PcmTransform_constructor 24000 2 =
     Inr \<lparr>carry = [], frameBytes = 4, inputSampleRate = 24000, inputChannels = 2\<rparr> \<and>
   length (concat [[1, 2, 3], [4, 5, 6, 7, 8 :: byte]]) mod 4 = 0 \<and>
   (\<exists>t' outs. feed \<lparr>carry = [], frameBytes = 4, inputSampleRate = 24000, inputChannels = 2\<rparr>
                 [[1, 2, 3], [4, 5, 6, 7, 8]] = Inr (t', outs) \<and>
      length (concat outs) = 2 * 2 * 4 \<and> carry t' = [])"
proof -
  let ?t = "\<lparr>carry = [], frameBytes = 4, inputSampleRate = 24000, inputChannels = 2\<rparr>"
  have c: "PcmTransform_constructor 24000 2 = Inr ?t"
    by (simp add: PcmTransform_constructor_def PCM_SAMPLE_BYTES_def)
  have p: "(0::nat) < 2" by simp
  have m: "length (concat [[1, 2, 3], [4, 5, 6, 7, 8 :: byte]]) mod frameBytes ?t = 0" by simp
  show ?thesis
    using c aligned_output_length [OF c p m]
    by (simp add: upsampleFactor_of_def DISCORD_SAMPLE_RATE_def DISCORD_CHANNELS_def PCM_SAMPLE_BYTES_def)
qed

subsection \<open>Errors of the transform\<close>

lemma readInt16LE_error:
  "readInt16LE buf off = Inl e \<Longrightarrow> e = ERR_OUT_OF_RANGE \<or> e = ERR_BUFFER_OUT_OF_BOUNDS"
  by (auto simp: readInt16LE_def Let_def split: if_splits)

lemma writeInt16LE_error:
  "writeInt16LE buf v off = Inl e \<Longrightarrow> e = ERR_OUT_OF_RANGE \<or> e = ERR_BUFFER_OUT_OF_BOUNDS"
  by (auto simp: writeInt16LE_def split: if_splits)

lemma write_copies_error:
  "write_copies k l r out off = Inl e \<Longrightarrow> e = ERR_OUT_OF_RANGE \<or> e = ERR_BUFFER_OUT_OF_BOUNDS"
  by (induction k arbitrary: out off)
     (auto split: sum.splits dest: writeInt16LE_error)

lemma frame_loop_error:
  "frame_loop t input inputFrames up frame out off = Inl e \<Longrightarrow>
   e = ERR_OUT_OF_RANGE \<or> e = ERR_BUFFER_OUT_OF_BOUNDS"
proof (induction "inputFrames - frame" arbitrary: frame out off)
  case 0
  then show ?case by (subst (asm) frame_loop.simps) simp
next
  case (Suc n)
  have ih: "frame_loop t input inputFrames up (Suc frame) a b = Inl e \<Longrightarrow>
            e = ERR_OUT_OF_RANGE \<or> e = ERR_BUFFER_OUT_OF_BOUNDS"
    for a b
    using Suc.hyps(1) [of "Suc frame" a b] Suc.hyps(2) by simp
  from Suc.prems Suc.hyps(2) show ?case
    by (subst (asm) frame_loop.simps)
       (auto simp: Let_def split: sum.splits if_splits
             dest: readInt16LE_error write_copies_error ih)
qed

lemma transform_error:
  "callback_error (PcmTransform_transform t chunk) = Some e \<Longrightarrow>
   e = ERR_OUT_OF_RANGE \<or> e = ERR_BUFFER_OUT_OF_BOUNDS"
  by (auto simp: PcmTransform_transform_def Let_def split: if_splits sum.splits
           dest: frame_loop_error)

text \<open>
  Claim C7, as the code has it. The constructor fails, with the configuration error, exactly
  when the sample rate is neither 24000 nor 48000; for these two rates it succeeds
  whatever the channel count is (the count is typed \<^verbatim>\<open>1 | 2\<close> and is not checked when
  the object is built). Processing a chunk never hands the configuration error to the
  callback, for any transform and any chunk.
\<close>

theorem construction_checks_sample_rate_only:
  "(rate \<noteq> 24000 \<and> rate \<noteq> 48000 \<longrightarrow>
      PcmTransform_constructor rate channels = Inl (UnsupportedSampleRate rate)) \<and>
   (rate = 24000 \<or> rate = 48000 \<longrightarrow>
      PcmTransform_constructor rate channels =
        Inr \<lparr>carry = [], frameBytes = channels * 2, inputSampleRate = rate,
             inputChannels = channels\<rparr>) \<and>
   callback_error (PcmTransform_transform t chunk) \<noteq> Some (UnsupportedSampleRate r)"
  using transform_error [of t chunk "UnsupportedSampleRate r"]
  by (auto simp: PcmTransform_constructor_def PCM_SAMPLE_BYTES_def)

text \<open>
  The theorem at an unsupported rate and at a supported one.
\<close>

theorem construction_checks_sample_rate_only_witness:
  "PcmTransform_constructor 16000 1 = Inl (UnsupportedSampleRate 16000) \<and>
   PcmTransform_constructor 48000 2 =
     Inr \<lparr>carry = [], frameBytes = 4, inputSampleRate = 48000, inputChannels = 2\<rparr>"
  using construction_checks_sample_rate_only [of 16000 1]
        construction_checks_sample_rate_only [of 48000 2]
  by simp

text \<open>
  Claim C7 as it is stated asks for a configuration error on a channel count other than
  1 or 2: the constructor, given 3 channels at 24000 Hz, builds a transform.
\<close>

theorem three_channels_construct_counterexample:
  "PcmTransform_constructor 24000 3 =
     Inr \<lparr>carry = [], frameBytes = 6, inputSampleRate = 24000, inputChannels = 3\<rparr>"
  by (simp add: PcmTransform_constructor_def PCM_SAMPLE_BYTES_def)

lemma mono24_transform:
  assumes "t = \<lparr>carry = [], frameBytes = 2, inputSampleRate = 24000, inputChannels = 1\<rparr>"
    and "chunk \<noteq> []" "even (length chunk)"
  shows "PcmTransform_transform t chunk =
           \<lparr>after = t, pushed = [resampled t chunk], callback_error = None\<rparr>"
proof -
  have wf: "well_formed t" by (simp add: assms(1) well_formed_def)
  have f: "chunk = carry t @ chunk" by (simp add: assms(1))
  have u: "usableLength_of t chunk = length chunk"
    using assms(3) by (simp add: usableLength_of_def assms(1))
  from transform_ok [OF wf f]
  have "PcmTransform_transform t chunk =
           \<lparr>after = t\<lparr>carry := drop (length chunk) chunk\<rparr>,
            pushed = (if length chunk = 0 then [] else [resampled t chunk]),
            callback_error = None\<rparr>"
    by (simp only: u)
  moreover have "t\<lparr>carry := []\<rparr> = t" by (simp add: assms(1))
  ultimately show ?thesis using assms(2) by simp
qed

text \<open>
  Claim C9, as the code has it. A mono 24 kHz transform turns a chunk of 4 bytes, which
  is 2 mono frames of one 16-bit sample each, into one buffer of 16 bytes: 4 stereo
  frames, the first two holding the first sample on both channels and the last two the
  second sample.
\<close>

theorem two_mono_frames_example:
  "PcmTransform_constructor 24000 1 =
     Inr \<lparr>carry = [], frameBytes = 2, inputSampleRate = 24000, inputChannels = 1\<rparr> \<and>
   pushed (PcmTransform_transform
             \<lparr>carry = [], frameBytes = 2, inputSampleRate = 24000, inputChannels = 1\<rparr>
             [a0, a1, b0, b1]) =
     [[a0, a1, a0, a1,  a0, a1, a0, a1,  b0, b1, b0, b1,  b0, b1, b0, b1]] \<and>
   callback_error (PcmTransform_transform
             \<lparr>carry = [], frameBytes = 2, inputSampleRate = 24000, inputChannels = 1\<rparr>
             [a0, a1, b0, b1]) = None"
proof -
  let ?t = "\<lparr>carry = [], frameBytes = 2, inputSampleRate = 24000, inputChannels = 1\<rparr>"
  have "length [a0, a1, b0, b1] div frameBytes ?t = 2" by simp
  then have r: "resampled ?t [a0, a1, b0, b1] = upsampled ?t [a0, a1, b0, b1] 2 0 2"
    unfolding resampled_def by (simp only: upsampleFactor_of_def DISCORD_SAMPLE_RATE_def) simp
  have u: "[0..<2] = [0, 1::nat]" by (simp add: upt_rec)
  have d: "replicate 2 x = [x, x]" for x :: Buffer by (simp add: numeral_2_eq_2)
  have "resampled ?t [a0, a1, b0, b1] =
     [a0, a1, a0, a1,  a0, a1, a0, a1,  b0, b1, b0, b1,  b0, b1, b0, b1]"
    unfolding r upsampled_def u d by (simp add: stereo_frame_def)
  then show ?thesis
    using mono24_transform [of ?t "[a0, a1, b0, b1]"]
    by (simp add: PcmTransform_constructor_def PCM_SAMPLE_BYTES_def)
qed

text \<open>
  Claim C9 as it is stated gives the chunk 8 bytes: that is 4 mono frames, and the
  output has 32 bytes, not 16.
\<close>

theorem eight_bytes_counterexample:
  "map length (pushed (PcmTransform_transform
             \<lparr>carry = [], frameBytes = 2, inputSampleRate = 24000, inputChannels = 1\<rparr>
             [1, 2, 3, 4, 5, 6, 7, 8])) = [32] \<and>
   length (concat (pushed (PcmTransform_transform
             \<lparr>carry = [], frameBytes = 2, inputSampleRate = 24000, inputChannels = 1\<rparr>
             [1, 2, 3, 4, 5, 6, 7, 8]))) \<noteq> 16"
proof -
  let ?t = "\<lparr>carry = [], frameBytes = 2, inputSampleRate = 24000, inputChannels = 1\<rparr>"
  have "length (resampled ?t [1, 2, 3, 4, 5, 6, 7, 8]) = 32"
    by (simp add: length_resampled upsampleFactor_of_def DISCORD_SAMPLE_RATE_def)
  then show ?thesis
    using mono24_transform [of ?t "[1, 2, 3, 4, 5, 6, 7, 8]"] by simp
qed

text \<open>
  Claim C10. A call that omits \<^verbatim>\<open>inputSampleRate\<close> gets 24000, one that omits
  \<^verbatim>\<open>inputChannels\<close> gets 1; with both omitted the transform is the mono 24 kHz one,
  its upsample factor is 2, and every chunk of whole frames comes out with each input
  sample written four times: on both channels of two consecutive stereo frames.
\<close>

theorem default_input_format:
  "(param_inputSampleRate p = None \<longrightarrow> resolved_inputSampleRate p = 24000) \<and>
   (param_inputChannels p = None \<longrightarrow> resolved_inputChannels p = 1) \<and>
   (param_inputSampleRate p = None \<and> param_inputChannels p = None \<longrightarrow>
      pcmTransform p =
        Inr \<lparr>carry = [], frameBytes = 2, inputSampleRate = 24000, inputChannels = 1\<rparr> \<and>
      upsampleFactor_of
        \<lparr>carry = [], frameBytes = 2, inputSampleRate = 24000, inputChannels = 1\<rparr> = 2 \<and>
      (\<forall>chunk. chunk \<noteq> [] \<and> even (length chunk) \<longrightarrow>
         PcmTransform_transform
           \<lparr>carry = [], frameBytes = 2, inputSampleRate = 24000, inputChannels = 1\<rparr> chunk =
         \<lparr>after = \<lparr>carry = [], frameBytes = 2, inputSampleRate = 24000, inputChannels = 1\<rparr>,
          pushed = [concat (map (\<lambda>i. [chunk ! (i * 2), chunk ! (i * 2 + 1),
                                         chunk ! (i * 2), chunk ! (i * 2 + 1),
                                         chunk ! (i * 2), chunk ! (i * 2 + 1),
                                         chunk ! (i * 2), chunk ! (i * 2 + 1)])
                             [0..<length chunk div 2])],
          callback_error = None\<rparr>))"
proof -
  let ?t = "\<lparr>carry = [], frameBytes = 2, inputSampleRate = 24000, inputChannels = 1\<rparr>"
  have up: "upsampleFactor_of ?t = 2"
    by (simp add: upsampleFactor_of_def DISCORD_SAMPLE_RATE_def)
  have d: "replicate 2 x = [x, x]" for x :: Buffer by (simp add: numeral_2_eq_2)
  have res: "resampled ?t chunk =
     concat (map (\<lambda>i. [chunk ! (i * 2), chunk ! (i * 2 + 1),
                        chunk ! (i * 2), chunk ! (i * 2 + 1),
                        chunk ! (i * 2), chunk ! (i * 2 + 1),
                        chunk ! (i * 2), chunk ! (i * 2 + 1)])
                 [0..<length chunk div 2])" for chunk
    unfolding resampled_def upsampled_def up d by (simp add: stereo_frame_def Let_def)
  have tr: "chunk \<noteq> [] \<and> even (length chunk) \<longrightarrow>
      PcmTransform_transform ?t chunk =
        \<lparr>after = ?t, pushed = [resampled ?t chunk], callback_error = None\<rparr>" for chunk
    using mono24_transform [of ?t chunk] by blast
  have c: "param_inputSampleRate p = None \<and> param_inputChannels p = None \<longrightarrow>
      pcmTransform p = Inr ?t"
    by (simp add: pcmTransform_def PcmTransform_constructor_def resolved_inputSampleRate_def
        resolved_inputChannels_def PCM_SAMPLE_BYTES_def)
  have a: "param_inputSampleRate p = None \<longrightarrow> resolved_inputSampleRate p = 24000"
    by (simp add: resolved_inputSampleRate_def)
  have b: "param_inputChannels p = None \<longrightarrow> resolved_inputChannels p = 1"
    by (simp add: resolved_inputChannels_def)
  show ?thesis
    using a b c up tr by (simp only: res [symmetric]) blast
qed

text \<open>
  The theorem at a call with no optional parameter, on the one-sample chunk 7, 9.
\<close>

theorem default_input_format_witness:
  "param_inputSampleRate
     \<lparr>abortSignal = None, param_inputSampleRate = None, param_inputChannels = None,
      maxBufferedMs = None\<rparr> = None \<and>
   param_inputChannels
     \<lparr>abortSignal = None, param_inputSampleRate = None, param_inputChannels = None,
      maxBufferedMs = None\<rparr> = None \<and>
   resolved_inputSampleRate
     \<lparr>abortSignal = None, param_inputSampleRate = None, param_inputChannels = None,
      maxBufferedMs = None\<rparr> = 24000 \<and>
   resolved_inputChannels
     \<lparr>abortSignal = None, param_inputSampleRate = None, param_inputChannels = None,
      maxBufferedMs = None\<rparr> = 1 \<and>
   pushed (PcmTransform_transform
      \<lparr>carry = [], frameBytes = 2, inputSampleRate = 24000, inputChannels = 1\<rparr> [7, 9]) =
     [[7, 9, 7, 9, 7, 9, 7, 9]]"
proof -
  let ?p = "\<lparr>abortSignal = None, param_inputSampleRate = None, param_inputChannels = None,
      maxBufferedMs = None\<rparr>"
  let ?t = "\<lparr>carry = [], frameBytes = 2, inputSampleRate = 24000, inputChannels = 1\<rparr>"
  have 1: "param_inputSampleRate ?p = None" "param_inputChannels ?p = None" by simp_all
  have 2: "[7, 9 :: byte] \<noteq> [] \<and> even (length [7, 9 :: byte])" by simp
  have u: "[0..<length [7, 9 :: byte] div 2] = [0]" by simp
  from default_input_format [of ?p] 1
  have r: "resolved_inputSampleRate ?p = 24000" "resolved_inputChannels ?p = 1"
    and "\<forall>chunk. chunk \<noteq> [] \<and> even (length chunk) \<longrightarrow>
         PcmTransform_transform ?t chunk =
         \<lparr>after = ?t,
          pushed = [concat (map (\<lambda>i. [chunk ! (i * 2), chunk ! (i * 2 + 1),
                                         chunk ! (i * 2), chunk ! (i * 2 + 1),
                                         chunk ! (i * 2), chunk ! (i * 2 + 1),
                                         chunk ! (i * 2), chunk ! (i * 2 + 1)])
                             [0..<length chunk div 2])],
          callback_error = None\<rparr>"
    by blast+
  with 2 have "PcmTransform_transform ?t [7, 9] =
         \<lparr>after = ?t,
          pushed = [concat (map (\<lambda>i. [[7, 9] ! (i * 2), [7, 9] ! (i * 2 + 1),
                                         [7, 9] ! (i * 2), [7, 9] ! (i * 2 + 1),
                                         [7, 9] ! (i * 2), [7, 9] ! (i * 2 + 1),
                                         [7, 9] ! (i * 2), [7, 9] ! (i * 2 + 1)])
                             [0..<length [7, 9 :: byte] div 2])],
          callback_error = None\<rparr>"
    by blast
  then have "pushed (PcmTransform_transform ?t [7, 9]) = [[7, 9, 7, 9, 7, 9, 7, 9]]"
    unfolding u by simp
  then show ?thesis using 1 r by simp
qed

section \<open>Properties of the playback lifecycle\<close>

lemma cleanup_fields [simp]:
  "signal (cleanup b s) = signal s"
  "aborted (cleanup b s) = aborted s"
  "settled (cleanup b s) = True"
  "done_flag (cleanup b s) = done_flag s"
  "pipeDone (cleanup b s) = pipeDone s"
  "abortDone (cleanup b s) = abortDone s"
  "abortListener (cleanup b s) = abortListener s"
  "onceListener (cleanup b s) = onceListener s"
  "pc (cleanup b s) = pc s"
  "result (cleanup b s) = result s"
  "calls (cleanup b s) =
     (if settled s then calls s
      else calls s @ (if b then [Stop] else []) @ teardown_calls)"
  by (simp_all add: cleanup_def teardown_calls_def)

lemma settle_fields [simp]:
  "signal (settle e s) = signal s"
  "aborted (settle e s) = aborted s"
  "settled (settle e s) = settled s"
  "done_flag (settle e s) = True"
  "pipeDone (settle e s) = (if done_flag s then pipeDone s else Some e)"
  "abortDone (settle e s) = abortDone s"
  "abortListener (settle e s) = abortListener s"
  "onceListener (settle e s) = onceListener s"
  "pc (settle e s) = pc s"
  "result (settle e s) = result s"
  "calls (settle e s) = calls s"
  by (simp_all add: settle_def)

lemma finish_fields [simp]:
  "signal (finish out s) = signal s"
  "aborted (finish out s) = aborted s"
  "settled (finish out s) = True"
  "done_flag (finish out s) = done_flag s"
  "pipeDone (finish out s) = pipeDone s"
  "abortDone (finish out s) = abortDone s"
  "abortListener (finish out s) = False"
  "onceListener (finish out s) = onceListener s"
  "pc (finish out s) = Returned"
  "result (finish out s) = Some out"
  "calls (finish out s) = (if settled s then calls s else calls s @ teardown_calls)"
  by (simp_all add: finish_def)

lemma abort_fields:
  assumes "signal s = Some False"
  shows
  "signal (step s AbortFired) = Some True"
  "aborted (step s AbortFired) = (aborted s \<or> abortListener s \<or> onceListener s)"
  "settled (step s AbortFired) = (settled s \<or> abortListener s)"
  "done_flag (step s AbortFired) = done_flag s"
  "pipeDone (step s AbortFired) = pipeDone s"
  "abortDone (step s AbortFired) = (abortDone s \<or> onceListener s)"
  "abortListener (step s AbortFired) = abortListener s"
  "onceListener (step s AbortFired) = False"
  "pc (step s AbortFired) = pc s"
  "result (step s AbortFired) = result s"
  "calls (step s AbortFired) =
     (if abortListener s \<and> \<not> settled s then calls s @ Stop # teardown_calls else calls s)"
  using assms by (simp_all add: Let_def)



lemma teardown_no_player [simp]:
  "Play \<notin> set teardown_calls" "Stop \<notin> set teardown_calls" "distinct teardown_calls"
  by (simp_all add: teardown_calls_def)

lemma start_reachable:
  assumes "start p = Inr s"
  shows "if abortSignal p = Some True then preaborted s else running s"
  using assms
  by (auto simp: start_def Let_def running_def preaborted_def split: sum.splits if_splits)

lemma returned_step:
  assumes "pc s = Returned" "\<not> abortListener s"
  shows "pc (step s ev) = Returned \<and> \<not> abortListener (step s ev) \<and>
         calls (step s ev) = calls s \<and> result (step s ev) = result s \<and>
         settled (step s ev) = settled s \<and>
         (aborted s \<longrightarrow> aborted (step s ev)) \<and>
         (signal s = Some True \<longrightarrow> signal (step s ev) = Some True)"
  using assms by (cases ev) (simp_all add: Let_def)

lemma completed_step: "completed s \<Longrightarrow> completed (step s ev)"
  using returned_step [of s ev] by (simp add: completed_def)

lemma aborted_result_step: "aborted_result s \<Longrightarrow> aborted_result (step s ev)"
  using returned_step [of s ev] by (simp add: aborted_result_def)

lemma preaborted_step: "preaborted s \<Longrightarrow> preaborted (step s ev)"
  using returned_step [of s ev] by (simp add: preaborted_def)


lemma running_abort:
  assumes "running s"
  shows "if signal s = Some False then aborting (step s AbortFired)
         else step s AbortFired = s"
proof (cases "signal s = Some False")
  case True
  show ?thesis
    using assms unfolding running_def aborting_def
    by (simp add: abort_fields [OF True] True)
next
  case False
  then show ?thesis by simp
qed

lemma running_settle: "running s \<Longrightarrow> running (settle e s)"
  by (simp add: running_def)

lemma running_finish:
  "running s \<Longrightarrow> out \<noteq> Resolved True \<Longrightarrow> completed (finish out s)"
  by (simp add: running_def completed_def)

lemma running_pc:
  "running s \<Longrightarrow> p \<noteq> Returned \<Longrightarrow> running (s\<lparr>pc := p\<rparr>)"
  by (simp add: running_def)

lemma running_step:
  assumes "running s"
  shows "running (step s ev) \<or> aborting (step s ev) \<or> completed (step s ev)"
proof (cases ev)
  case AbortFired
  then show ?thesis using running_abort [OF assms] assms by (simp split: if_splits)
next
  case (StreamError msg)
  then show ?thesis using running_settle [OF assms] by simp
next
  case OutputFinish
  then show ?thesis using running_settle [OF assms] by simp
next
  case OutputClose
  then show ?thesis using running_settle [OF assms] assms by simp
next
  case EntersStateSettled
  have na: "\<not> aborted s" using assms by (simp add: running_def)
  show ?thesis
  proof (cases "pc s")
    case AwaitPlaying
    then show ?thesis using running_pc [OF assms, of AwaitRace] by (simp add: EntersStateSettled)
  next
    case AwaitIdle
    then show ?thesis
      using running_finish [OF assms, of "Resolved False"] na by (simp add: EntersStateSettled)
  qed (use assms in \<open>simp_all add: EntersStateSettled\<close>)
next
  case Resume
  have na: "\<not> aborted s" using assms by (simp add: running_def)
  show ?thesis
  proof (cases "pc s")
    case AwaitRace
    then show ?thesis
      using running_pc [OF assms, of AwaitPipeDone] assms by (simp add: Resume)
  next
    case AwaitPipeDone
    show ?thesis
    proof (cases "pipeDone s")
      case None
      then show ?thesis using assms AwaitPipeDone by (simp add: Resume)
    next
      case (Some err)
      show ?thesis
      proof (cases err)
        case None
        then show ?thesis
          using running_pc [OF assms, of AwaitIdle] na Some AwaitPipeDone
          by (simp add: Resume after_pipeDone_def)
      next
        case (Some e)
        then show ?thesis
          using running_finish [OF assms, of "Threw e"] na \<open>pipeDone s = Some err\<close> AwaitPipeDone
          by (simp add: Resume after_pipeDone_def)
      qed
    qed
  qed (use assms in \<open>simp_all add: Resume\<close>)
qed

lemma aborting_settle: "aborting s \<Longrightarrow> aborting (settle e s)"
  by (simp add: aborting_def)

lemma aborting_finish:
  "aborting s \<Longrightarrow> aborted_result (finish (Resolved True) s)"
  by (simp add: aborting_def aborted_result_def)

lemma aborting_pc:
  "aborting s \<Longrightarrow> p \<noteq> Returned \<Longrightarrow> aborting (s\<lparr>pc := p\<rparr>)"
  by (simp add: aborting_def)

lemma aborting_step:
  assumes "aborting s"
  shows "aborting (step s ev) \<or> aborted_result (step s ev)"
proof -
  have ab: "aborted s" and sg: "signal s = Some True" and ad: "abortDone s"
    using assms by (simp_all add: aborting_def)
  show ?thesis
  proof (cases ev)
    case AbortFired
    then show ?thesis using assms sg by simp
  next
    case (StreamError msg)
    then show ?thesis using aborting_settle [OF assms] by simp
  next
    case OutputFinish
    then show ?thesis using aborting_settle [OF assms] by simp
  next
    case OutputClose
    then show ?thesis using aborting_settle [OF assms] assms by simp
  next
    case EntersStateSettled
    show ?thesis
    proof (cases "pc s")
      case AwaitPlaying
      then show ?thesis using aborting_pc [OF assms, of AwaitRace] by (simp add: EntersStateSettled)
    next
      case AwaitIdle
      then show ?thesis
        using aborting_finish [OF assms] ab by (simp add: EntersStateSettled)
    qed (use assms in \<open>simp_all add: EntersStateSettled\<close>)
  next
    case Resume
    show ?thesis
    proof (cases "pc s")
      case AwaitRace
      then show ?thesis
        using aborting_pc [OF assms, of AwaitPipeDone] assms by (simp add: Resume)
    next
      case AwaitPipeDone
      show ?thesis
      proof (cases "pipeDone s")
        case None
        then show ?thesis using assms AwaitPipeDone by (simp add: Resume)
      next
        case (Some err)
        then show ?thesis
          using aborting_finish [OF assms] ab AwaitPipeDone
          by (cases err) (simp_all add: Resume after_pipeDone_def)
      qed
    qed (use assms in \<open>simp_all add: Resume\<close>)
  qed
qed

lemma reachable_step: "reachable s \<Longrightarrow> reachable (step s ev)"
  unfolding reachable_def
  using running_step [of s ev] aborting_step [of s ev] completed_step [of s ev]
        aborted_result_step [of s ev] preaborted_step [of s ev]
  by blast

lemma reachable_foldl: "reachable s \<Longrightarrow> reachable (foldl step s evs)"
  by (induction evs arbitrary: s) (simp_all add: reachable_step)


lemma after_abort_foldl:
  assumes "aborting s \<or> aborted_result s"
  shows "aborting (foldl step s evs) \<or> aborted_result (foldl step s evs)"
  using assms
proof (induction evs arbitrary: s)
  case Nil
  then show ?case by simp
next
  case (Cons ev evs)
  have "aborting (step s ev) \<or> aborted_result (step s ev)"
    using Cons.prems aborting_step [of s ev] aborted_result_step [of s ev] by blast
  then show ?case using Cons.IH by simp
qed

lemma preaborted_foldl: "preaborted s \<Longrightarrow> preaborted (foldl step s evs)"
  by (induction evs arbitrary: s) (simp_all add: preaborted_step)

lemma aborting_close:
  assumes "aborting s"
  shows "aborting (step s OutputClose) \<and> pc (step s OutputClose) = pc s \<and>
         pipeDone (step s OutputClose) \<noteq> None"
  using assms aborting_settle [OF assms, of None] by (simp add: aborting_def)

lemma aborting_resume:
  assumes "aborting s" "pipeDone s \<noteq> None"
  shows "aborted_result (step s Resume) \<or>
         aborting (step s Resume) \<and> pipeDone (step s Resume) \<noteq> None \<and>
           (pc s = AwaitRace \<longrightarrow> pc (step s Resume) = AwaitPipeDone) \<and>
           (pc s \<noteq> AwaitRace \<longrightarrow> pc (step s Resume) = pc s \<and> pc s \<noteq> AwaitPipeDone)"
proof -
  have ab: "aborted s" using assms(1) by (simp add: aborting_def)
  obtain err where pd: "pipeDone s = Some err" using assms(2) by blast
  show ?thesis
  proof (cases "pc s")
    case AwaitRace
    then show ?thesis using aborting_pc [OF assms(1), of AwaitPipeDone] pd by simp
  next
    case AwaitPipeDone
    then show ?thesis
      using aborting_finish [OF assms(1)] ab pd by (cases err) (simp_all add: after_pipeDone_def)
  qed (use assms pd in simp_all)
qed

lemma aborting_enters:
  assumes "aborting s"
  shows "aborted_result (step s EntersStateSettled) \<or>
         aborting (step s EntersStateSettled) \<and>
           (pc (step s EntersStateSettled) = AwaitRace \<or>
            pc (step s EntersStateSettled) = AwaitPipeDone)"
proof -
  have ab: "aborted s" and nr: "pc s \<noteq> Returned" using assms by (simp_all add: aborting_def)
  show ?thesis
  proof (cases "pc s")
    case AwaitPlaying
    then show ?thesis using aborting_pc [OF assms, of AwaitRace] by simp
  next
    case AwaitIdle
    then show ?thesis using aborting_finish [OF assms] ab by simp
  qed (use assms nr in simp_all)
qed

lemma aborting_pc_step:
  assumes "aborting s"
  shows "aborted_result (step s ev) \<or>
         aborting (step s ev) \<and>
           (pipeDone s \<noteq> None \<longrightarrow> pipeDone (step s ev) \<noteq> None) \<and>
           (pc s = AwaitRace \<longrightarrow> pc (step s ev) = AwaitRace \<or> pc (step s ev) = AwaitPipeDone) \<and>
           (pc s = AwaitPipeDone \<longrightarrow> pc (step s ev) = AwaitPipeDone) \<and>
           (pc s = AwaitIdle \<longrightarrow> pc (step s ev) = AwaitIdle)"
proof -
  have ab: "aborted s" and sg: "signal s = Some True"
    using assms by (simp_all add: aborting_def)
  show ?thesis
  proof (cases ev)
    case AbortFired
    then show ?thesis using assms sg by simp
  next
    case (StreamError msg)
    then show ?thesis using aborting_settle [OF assms] by simp
  next
    case OutputFinish
    then show ?thesis using aborting_settle [OF assms] by simp
  next
    case OutputClose
    then show ?thesis using aborting_settle [OF assms] assms by simp
  next
    case EntersStateSettled
    then show ?thesis
      using aborting_enters [OF assms] assms by (cases "pc s") auto
  next
    case Resume
    show ?thesis
    proof (cases "pipeDone s")
      case None
      then show ?thesis
        using assms aborting_pc [OF assms, of AwaitPipeDone]
        by (cases "pc s") (simp_all add: Resume)
    next
      case (Some err)
      then show ?thesis
        using aborting_resume [OF assms] by (auto simp del: step.simps simp: Resume)
    qed
  qed
qed

lemma past_playing_step: "past_playing s \<Longrightarrow> past_playing (step s ev)"
  unfolding past_playing_def
  using aborting_pc_step [of s ev] aborted_result_step [of s ev] by blast

lemma at_pipeDone_step: "at_pipeDone s \<Longrightarrow> at_pipeDone (step s ev)"
  unfolding at_pipeDone_def
  using aborting_pc_step [of s ev] aborted_result_step [of s ev] by blast

lemma pipe_resolved_step: "pipe_resolved s \<Longrightarrow> pipe_resolved (step s ev)"
  unfolding pipe_resolved_def
  using aborting_pc_step [of s ev] aborted_result_step [of s ev] by blast

lemma at_idle_step: "at_idle s \<Longrightarrow> at_idle (step s ev)"
  unfolding at_idle_def
  using aborting_pc_step [of s ev] aborted_result_step [of s ev] by blast

lemma at_idle_foldl: "at_idle s \<Longrightarrow> at_idle (foldl step s evs)"
  by (induction evs arbitrary: s) (simp_all add: at_idle_step)

lemma past_playing_foldl: "past_playing s \<Longrightarrow> past_playing (foldl step s evs)"
  by (induction evs arbitrary: s) (simp_all add: past_playing_step)

lemma at_pipeDone_foldl: "at_pipeDone s \<Longrightarrow> at_pipeDone (foldl step s evs)"
  by (induction evs arbitrary: s) (simp_all add: at_pipeDone_step)

lemma pipe_resolved_foldl: "pipe_resolved s \<Longrightarrow> pipe_resolved (foldl step s evs)"
  by (induction evs arbitrary: s) (simp_all add: pipe_resolved_step)

lemma aborted_result_foldl: "aborted_result s \<Longrightarrow> aborted_result (foldl step s evs)"
  by (induction evs arbitrary: s) (simp_all add: aborted_result_step)

lemma enters_past_playing:
  "aborting s \<or> aborted_result s \<Longrightarrow> past_playing (step s EntersStateSettled)"
  unfolding past_playing_def
  using aborting_enters [of s] aborted_result_step [of s EntersStateSettled] by blast

lemma resume_at_pipeDone:
  assumes "past_playing s"
  shows "at_pipeDone (step s Resume)"
proof -
  consider "aborted_result s" | "aborting s" "pc s = AwaitRace" | "aborting s" "pc s = AwaitPipeDone"
    using assms unfolding past_playing_def by blast
  then show ?thesis
  proof cases
    case 1
    then show ?thesis using aborted_result_step [of s Resume] by (simp add: at_pipeDone_def)
  next
    case 2
    then show ?thesis
      using aborting_pc [OF 2(1), of AwaitPipeDone] by (simp add: at_pipeDone_def aborting_def)
  next
    case 3
    then show ?thesis
      using aborting_pc_step [OF 3(1), of Resume] unfolding at_pipeDone_def by blast
  qed
qed

lemma event_pipe_resolved:
  assumes "aborting s \<or> aborted_result s" "resolves_pipeDone ev"
  shows "pipe_resolved (step s ev)"
proof (cases "aborted_result s")
  case True
  then show ?thesis using aborted_result_step [of s ev] by (simp add: pipe_resolved_def)
next
  case False
  then have a: "aborting s" using assms(1) by simp
  then have ab: "aborted s" by (simp add: aborting_def)
  have df: "done_flag s = (pipeDone s \<noteq> None)" using a by (simp add: aborting_def)
  have "aborting (settle e s) \<and> pipeDone (settle e s) \<noteq> None" for e
    using aborting_settle [OF a, of e] df by simp
  then show ?thesis
    using assms(2) ab by (cases ev) (simp_all add: pipe_resolved_def)
qed

lemma event_seen:
  assumes "aborting s \<or> aborted_result s" "\<exists>ev \<in> set evs. resolves_pipeDone ev"
  shows "pipe_resolved (foldl step s evs)"
  using assms
proof (induction evs arbitrary: s)
  case Nil
  then show ?case by simp
next
  case (Cons ev evs)
  show ?case
  proof (cases "resolves_pipeDone ev")
    case True
    then have "pipe_resolved (step s ev)" using Cons.prems(1) by (intro event_pipe_resolved)
    then show ?thesis using pipe_resolved_foldl by simp
  next
    case False
    have "aborting (step s ev) \<or> aborted_result (step s ev)"
      using Cons.prems(1) aborting_step [of s ev] aborted_result_step [of s ev] by blast
    moreover have "\<exists>ev \<in> set evs. resolves_pipeDone ev" using Cons.prems(2) False by auto
    ultimately show ?thesis using Cons.IH by simp
  qed
qed

lemma resume_completes:
  assumes "at_pipeDone s" "pipe_resolved s"
  shows "aborted_result (step s Resume)"
proof (cases "aborted_result s")
  case True
  then show ?thesis by (rule aborted_result_step)
next
  case False
  then have a: "aborting s" "pc s = AwaitPipeDone" "pipeDone s \<noteq> None"
    using assms by (simp_all add: at_pipeDone_def pipe_resolved_def)
  show ?thesis
    using aborting_resume [OF a(1,3)] a(2) by (auto simp del: step.simps)
qed

lemma resumed_at_pipeDone:
  assumes "past_playing s" "subseq [Resume] evs"
  shows "at_pipeDone (foldl step s evs)"
  using assms
proof (induction evs arbitrary: s)
  case Nil
  then show ?case by simp
next
  case (Cons ev evs)
  show ?case
  proof (cases "ev = Resume")
    case True
    then have "at_pipeDone (step s ev)"
      using resume_at_pipeDone [OF Cons.prems(1)] by (simp del: step.simps)
    then show ?thesis using at_pipeDone_foldl by simp
  next
    case False
    then have "subseq [Resume] evs" using Cons.prems(2) by auto
    moreover have "past_playing (step s ev)" using Cons.prems(1) by (rule past_playing_step)
    ultimately show ?thesis using Cons.IH by simp
  qed
qed

lemma settled_resumed_at_pipeDone:
  assumes "aborting s \<or> aborted_result s" "subseq [EntersStateSettled, Resume] evs"
  shows "at_pipeDone (foldl step s evs)"
  using assms
proof (induction evs arbitrary: s)
  case Nil
  then show ?case by simp
next
  case (Cons ev evs)
  show ?case
  proof (cases "ev = EntersStateSettled")
    case True
    then have "subseq [Resume] evs" using Cons.prems(2) by simp
    moreover have "past_playing (step s ev)"
      using enters_past_playing [OF Cons.prems(1)] True by (simp del: step.simps)
    ultimately show ?thesis using resumed_at_pipeDone by simp
  next
    case False
    then have "subseq [EntersStateSettled, Resume] evs" using Cons.prems(2) by auto
    moreover have "aborting (step s ev) \<or> aborted_result (step s ev)"
      using Cons.prems(1) aborting_step [of s ev] aborted_result_step [of s ev] by blast
    ultimately show ?thesis using Cons.IH by simp
  qed
qed

lemma abort_resolves:
  assumes ab: "aborting s"
    and sub: "subseq (butlast (owed (pc s))) front"
    and res: "pc s = AwaitIdle \<or> pipeDone s \<noteq> None \<or> (\<exists>ev \<in> set front. resolves_pipeDone ev)"
  shows "aborted_result (foldl step s (front @ last (owed (pc s)) # rest))"
proof -
  define s1 where "s1 = foldl step s front"
  have run: "foldl step s (front @ last (owed (pc s)) # rest)
             = foldl step (step s1 (last (owed (pc s)))) rest"
    by (simp add: s1_def)
  have "aborted_result (step s1 (last (owed (pc s))))"
  proof (cases "pc s = AwaitIdle")
    case True
    then have "at_idle s" using ab by (simp add: at_idle_def)
    then have "at_idle s1" unfolding s1_def by (rule at_idle_foldl)
    then have "aborted_result (step s1 EntersStateSettled)"
      using aborting_enters [of s1] aborting_pc_step [of s1 EntersStateSettled]
        aborted_result_step [of s1 EntersStateSettled]
      by (auto simp del: step.simps simp: at_idle_def)
    then show ?thesis using True by simp
  next
    case False
    have nr: "pc s \<noteq> Returned" using ab by (simp add: aborting_def)
    have last: "last (owed (pc s)) = Resume"
      using False nr by (cases "pc s") simp_all
    have p1: "at_pipeDone s1"
    proof (cases "pc s")
      case AwaitPlaying
      then have "subseq [EntersStateSettled, Resume] front" using sub by simp
      then show ?thesis unfolding s1_def using ab by (intro settled_resumed_at_pipeDone) simp_all
    next
      case AwaitRace
      then have "subseq [Resume] front" using sub by simp
      moreover have "past_playing s" using ab AwaitRace by (simp add: past_playing_def)
      ultimately show ?thesis unfolding s1_def by (intro resumed_at_pipeDone)
    next
      case AwaitPipeDone
      then have "at_pipeDone s" using ab by (simp add: at_pipeDone_def)
      then show ?thesis unfolding s1_def by (rule at_pipeDone_foldl)
    qed (use False nr in simp_all)
    have c1: "pipe_resolved s1"
    proof (cases "pipeDone s \<noteq> None")
      case True
      then have "pipe_resolved s" using ab by (simp add: pipe_resolved_def)
      then show ?thesis unfolding s1_def by (rule pipe_resolved_foldl)
    next
      case False
      then have "\<exists>ev \<in> set front. resolves_pipeDone ev"
        using res \<open>pc s \<noteq> AwaitIdle\<close> by simp
      then show ?thesis unfolding s1_def using ab by (intro event_seen) simp_all
    qed
    show ?thesis unfolding last using p1 c1 by (rule resume_completes)
  qed
  then show ?thesis unfolding run by (rule aborted_result_foldl)
qed

lemma playDiscordPcmStream_reachable:
  "reachable (playDiscordPcmStream p events) \<or>
   (\<exists>e. playDiscordPcmStream p events = threw_at_construction e)"
proof (cases "start p")
  case (Inl e)
  then have "playDiscordPcmStream p events = threw_at_construction e"
    by (simp add: playDiscordPcmStream_def)
  then show ?thesis by blast
next
  case (Inr s)
  then have "reachable s" using start_reachable [OF Inr] by (simp add: reachable_def split: if_splits)
  then show ?thesis using Inr by (simp add: playDiscordPcmStream_def reachable_foldl)
qed

lemma playDiscordPcmStream_append:
  "start p = Inr s0 \<Longrightarrow>
   playDiscordPcmStream p (xs @ ys) = foldl step (playDiscordPcmStream p xs) ys"
  by (simp add: playDiscordPcmStream_def)

lemma resolve_integer:
  assumes "resolveMaxBufferedBytes m = Num n"
  shows "n = of_int \<lfloor>n\<rfloor> \<and> 0 \<le> n"
proof -
  obtain y where y: "Math_max (Num 32768) (Math_floor y) = Num n"
    using assms unfolding resolveMaxBufferedBytes_def Let_def by blast
  show ?thesis
  proof (cases y)
    case (Num a)
    then have "n = max 32768 (of_int \<lfloor>a\<rfloor>)" using y by simp
    then have "n = of_int (max 32768 \<lfloor>a\<rfloor>)" by (simp add: max_def)
    then show ?thesis by simp
  qed (use y in simp_all)
qed

lemma output_stream_ok:
  "resolveMaxBufferedBytes (maxBufferedMs p) = Num n \<Longrightarrow> output_stream p = Inr ()"
  using resolve_integer [of "maxBufferedMs p" n]
  by (simp add: output_stream_def PassThrough_constructor_def)

lemma output_stream_finite:
  assumes "maxBufferedMs p = None \<or> (\<exists>m \<le> 10 ^ 12. maxBufferedMs p = Some (Num m))"
  shows "output_stream p = Inr ()"
  using assms resolve_default resolve_finite(1) output_stream_ok by metis

lemma start_ok:
  assumes "resolved_inputSampleRate p = 24000 \<or> resolved_inputSampleRate p = 48000"
    and "resolveMaxBufferedBytes (maxBufferedMs p) = Num n"
  shows "\<exists>s0. start p = Inr s0"
  using assms(1) output_stream_ok [OF assms(2)]
  by (auto simp: start_def pcmTransform_def PcmTransform_constructor_def Let_def)

lemma pending_started:
  assumes "result (playDiscordPcmStream p pre) = None"
  shows "\<exists>s0. start p = Inr s0"
  using assms
  by (cases "start p") (simp_all add: playDiscordPcmStream_def threw_at_construction_def)

text \<open>
  Claim C3, as the code has it. First: when the transform and the output stream can be
  built (sample rate 24000 or 48000, the default included, and a buffer size that is a
  finite number) and the signal is already aborted at the call, the call resolves with
  \<^verbatim>\<open>{aborted: true}\<close> whatever events follow, and neither \<^verbatim>\<open>play\<close> nor \<^verbatim>\<open>stop\<close>
  is ever called. Second: when the signal fires while the call is pending (after the
  events \<open>pre\<close> the call has no outcome and the signal has not fired), then \<^verbatim>\<open>play\<close>
  had been called, and whatever events \<open>post\<close> follow, stream errors included, the
  call has not thrown (it is pending or has resolved with \<^verbatim>\<open>{aborted: true}\<close>) and
  \<^verbatim>\<open>stop\<close> has been called. And the call does resolve with \<^verbatim>\<open>{aborted: true}\<close>, as
  soon as it has been given what it is owed at the \<^verbatim>\<open>await\<close> where the abort found it:
  the events of \<open>owed\<close> in their order, with anything else in between, and, unless it
  waits at line 164, \<^verbatim>\<open>pipeDone\<close> resolved before the last of them, whether by a
  stream error or a finish before the abort or by an event of a stream after it. Whatever
  arrives afterwards (\<open>rest\<close>) changes nothing.
\<close>

theorem abort_takes_precedence:
  "((resolved_inputSampleRate p = 24000 \<or> resolved_inputSampleRate p = 48000) \<and>
     (\<exists>n. resolveMaxBufferedBytes (maxBufferedMs p) = Num n) \<and>
     abortSignal p = Some True \<longrightarrow>
     result (playDiscordPcmStream p events) = Some (Resolved True) \<and>
     Play \<notin> set (calls (playDiscordPcmStream p events)) \<and>
     Stop \<notin> set (calls (playDiscordPcmStream p events))) \<and>
   (result (playDiscordPcmStream p pre) = None \<and>
     signal (playDiscordPcmStream p pre) = Some False \<longrightarrow>
     Play \<in> set (calls (playDiscordPcmStream p pre)) \<and>
     (result (playDiscordPcmStream p (pre @ AbortFired # post)) = None \<or>
      result (playDiscordPcmStream p (pre @ AbortFired # post)) = Some (Resolved True)) \<and>
     Stop \<in> set (calls (playDiscordPcmStream p (pre @ AbortFired # post))) \<and>
     (subseq (butlast (owed (pc (playDiscordPcmStream p pre)))) front \<and>
      (pc (playDiscordPcmStream p pre) = AwaitIdle \<or>
       pipeDone (playDiscordPcmStream p pre) \<noteq> None \<or>
       (\<exists>ev \<in> set front. resolves_pipeDone ev)) \<longrightarrow>
        result (playDiscordPcmStream p
                  (pre @ AbortFired # front @
                     last (owed (pc (playDiscordPcmStream p pre))) # rest))
          = Some (Resolved True)))"
proof (intro conjI impI)
  assume a: "(resolved_inputSampleRate p = 24000 \<or> resolved_inputSampleRate p = 48000) \<and>
     (\<exists>n. resolveMaxBufferedBytes (maxBufferedMs p) = Num n) \<and>
     abortSignal p = Some True"
  then obtain s0 where s0: "start p = Inr s0" using start_ok by blast
  then have "preaborted s0" using start_reachable [OF s0] a by simp
  then have pa: "preaborted (playDiscordPcmStream p events)"
    using s0 by (simp add: playDiscordPcmStream_def preaborted_foldl)
  show "result (playDiscordPcmStream p events) = Some (Resolved True)"
    using pa by (simp add: preaborted_def)
  show "Play \<notin> set (calls (playDiscordPcmStream p events))"
    using pa by (simp add: preaborted_def)
  show "Stop \<notin> set (calls (playDiscordPcmStream p events))"
    using pa by (simp add: preaborted_def)
next
  assume a: "result (playDiscordPcmStream p pre) = None \<and>
     signal (playDiscordPcmStream p pre) = Some False"
  define s where "s = playDiscordPcmStream p pre"
  obtain s0 where s0: "start p = Inr s0" using a pending_started by blast
  have "reachable s"
    using playDiscordPcmStream_reachable [of p pre] a
    by (auto simp: s_def threw_at_construction_def)
  then have run: "running s"
    using a unfolding reachable_def s_def [symmetric]
    by (auto simp: aborting_def completed_def aborted_result_def preaborted_def)
  have sig: "signal s = Some False" using a by (simp add: s_def)
  have ab: "aborting (step s AbortFired)"
    using running_abort [OF run] sig by simp
  have same: "pc (step s AbortFired) = pc s" "pipeDone (step s AbortFired) = pipeDone s"
    using abort_fields [OF sig] by simp_all
  have split: "playDiscordPcmStream p (pre @ AbortFired # evs) =
                foldl step (step s AbortFired) evs" for evs
    using playDiscordPcmStream_append [OF s0, of pre "AbortFired # evs"] by (simp add: s_def)
  have mid: "aborting (foldl step (step s AbortFired) post) \<or>
             aborted_result (foldl step (step s AbortFired) post)"
    using ab by (intro after_abort_foldl) simp
  show "Play \<in> set (calls (playDiscordPcmStream p pre))"
    using run by (simp add: running_def s_def)
  show "result (playDiscordPcmStream p (pre @ AbortFired # post)) = None \<or>
      result (playDiscordPcmStream p (pre @ AbortFired # post)) = Some (Resolved True)"
    using mid unfolding split by (auto simp: aborting_def aborted_result_def)
  show "Stop \<in> set (calls (playDiscordPcmStream p (pre @ AbortFired # post)))"
    using mid unfolding split by (auto simp: aborting_def aborted_result_def)
  show "result (playDiscordPcmStream p
                  (pre @ AbortFired # front @
                     last (owed (pc (playDiscordPcmStream p pre))) # rest))
          = Some (Resolved True)"
    if h: "subseq (butlast (owed (pc (playDiscordPcmStream p pre)))) front \<and>
      (pc (playDiscordPcmStream p pre) = AwaitIdle \<or>
       pipeDone (playDiscordPcmStream p pre) \<noteq> None \<or>
       (\<exists>ev \<in> set front. resolves_pipeDone ev))"
  proof -
    have "subseq (butlast (owed (pc (step s AbortFired)))) front"
      and "pc (step s AbortFired) = AwaitIdle \<or> pipeDone (step s AbortFired) \<noteq> None \<or>
           (\<exists>ev \<in> set front. resolves_pipeDone ev)"
      unfolding same using h by (simp_all add: s_def)
    with ab have "aborted_result
           (foldl step (step s AbortFired)
              (front @ last (owed (pc (step s AbortFired))) # rest))"
      by (rule abort_resolves)
    then show ?thesis
      unfolding split same s_def [symmetric] by (simp add: aborted_result_def)
  qed
qed

text \<open>
  The theorem on two calls: one with the signal already aborted, and one where a stream
  error arrives first, then the signal fires, the function runs to its return, and the
  output stream emits \<^verbatim>\<open>close\<close> only afterwards.
\<close>

theorem abort_takes_precedence_witness:
  "resolveMaxBufferedBytes None = Num 1152000 \<and>
   result (playDiscordPcmStream
             \<lparr>abortSignal = Some True, param_inputSampleRate = None,
              param_inputChannels = None, maxBufferedMs = None\<rparr>
             [StreamError ''boom'', AbortFired]) = Some (Resolved True) \<and>
   result (playDiscordPcmStream
             \<lparr>abortSignal = Some False, param_inputSampleRate = None,
              param_inputChannels = None, maxBufferedMs = None\<rparr>
             [StreamError ''boom'']) = None \<and>
   signal (playDiscordPcmStream
             \<lparr>abortSignal = Some False, param_inputSampleRate = None,
              param_inputChannels = None, maxBufferedMs = None\<rparr>
             [StreamError ''boom'']) = Some False \<and>
   pc (playDiscordPcmStream
             \<lparr>abortSignal = Some False, param_inputSampleRate = None,
              param_inputChannels = None, maxBufferedMs = None\<rparr>
             [StreamError ''boom'']) = AwaitPlaying \<and>
   pipeDone (playDiscordPcmStream
             \<lparr>abortSignal = Some False, param_inputSampleRate = None,
              param_inputChannels = None, maxBufferedMs = None\<rparr>
             [StreamError ''boom'']) \<noteq> None \<and>
   subseq [EntersStateSettled, Resume] [EntersStateSettled, Resume] \<and>
   Stop \<in> set (calls (playDiscordPcmStream
             \<lparr>abortSignal = Some False, param_inputSampleRate = None,
              param_inputChannels = None, maxBufferedMs = None\<rparr>
             ([StreamError ''boom''] @ AbortFired # [EntersStateSettled, Resume]))) \<and>
   result (playDiscordPcmStream
             \<lparr>abortSignal = Some False, param_inputSampleRate = None,
              param_inputChannels = None, maxBufferedMs = None\<rparr>
             ([StreamError ''boom''] @ AbortFired # [EntersStateSettled, Resume] @
                Resume # [OutputClose]))
     = Some (Resolved True)"
proof -
  let ?p = "\<lparr>abortSignal = Some True, param_inputSampleRate = None,
              param_inputChannels = None, maxBufferedMs = None\<rparr>"
  let ?q = "\<lparr>abortSignal = Some False, param_inputSampleRate = None,
              param_inputChannels = None, maxBufferedMs = None\<rparr>"
  let ?s = "playDiscordPcmStream ?q [StreamError ''boom'']"
  have r: "resolved_inputSampleRate ?p = 24000" by (simp add: resolved_inputSampleRate_def)
  have m: "\<exists>n. resolveMaxBufferedBytes (maxBufferedMs ?p) = Num n"
    by (simp add: resolve_default)
  have st: "start ?q = Inr \<lparr>signal = Some False, aborted = False,
                     settled = False, done_flag = False, pipeDone = None, abortDone = False,
                     abortListener = True, onceListener = True,
                     pc = AwaitPlaying, calls = [Play], result = None\<rparr>"
    by (simp add: start_def pcmTransform_def PcmTransform_constructor_def
        resolved_inputSampleRate_def resolved_inputChannels_def Let_def
        output_stream_def PassThrough_constructor_def resolve_default)
  have pend: "result ?s = None" "signal ?s = Some False" "pc ?s = AwaitPlaying"
    "pipeDone ?s \<noteq> None"
    by (simp_all add: playDiscordPcmStream_def st settle_def)
  have sub: "subseq (butlast (owed (pc ?s))) [EntersStateSettled, Resume]"
    by (simp add: pend(3))
  have lst: "last (owed (pc ?s)) = Resume" by (simp add: pend(3))
  have 1: "result (playDiscordPcmStream ?p [StreamError ''boom'', AbortFired])
           = Some (Resolved True)"
    using abort_takes_precedence
            [where p = ?p and events = "[StreamError ''boom'', AbortFired]"] r m
    by simp
  have 2: "Stop \<in> set (calls (playDiscordPcmStream ?q
             ([StreamError ''boom''] @ AbortFired # [EntersStateSettled, Resume])))"
    and 3: "result (playDiscordPcmStream ?q
             ([StreamError ''boom''] @ AbortFired # [EntersStateSettled, Resume] @
                last (owed (pc ?s)) # [OutputClose])) = Some (Resolved True)"
    using abort_takes_precedence
            [where p = ?q and pre = "[StreamError ''boom'']"
               and post = "[EntersStateSettled, Resume]"
               and front = "[EntersStateSettled, Resume]" and rest = "[OutputClose]"]
          pend sub
    by blast+
  show ?thesis
    using 1 2 3 pend resolve_default unfolding lst by simp
qed

text \<open>
  Claim C3 as it is stated covers every call: with a sample rate of 16000 and a signal
  that is already aborted, the constructor of the transform throws and the call rejects
  with the configuration error.
\<close>

theorem unsupported_rate_throws_counterexample:
  "result (playDiscordPcmStream
             \<lparr>abortSignal = Some True, param_inputSampleRate = Some 16000,
              param_inputChannels = None, maxBufferedMs = None\<rparr> [])
   = Some (Threw (UnsupportedSampleRate 16000))"
  by (simp add: playDiscordPcmStream_def start_def pcmTransform_def PcmTransform_constructor_def
      resolved_inputSampleRate_def resolved_inputChannels_def threw_at_construction_def)

text \<open>
  A call in which one of the two constructors throws rejects with that error, whatever
  the signal and the events. The output stream's constructor throws, before the signal
  is looked at, when the buffered duration is not a number.
\<close>

lemma constructor_throws:
  "start p = Inl e \<Longrightarrow> result (playDiscordPcmStream p events) = Some (Threw e)"
  by (simp add: playDiscordPcmStream_def threw_at_construction_def)

lemma not_a_number_duration_throws:
  "result (playDiscordPcmStream
             \<lparr>abortSignal = Some True, param_inputSampleRate = None,
              param_inputChannels = None, maxBufferedMs = Some NaN\<rparr> [])
   = Some (Threw ERR_INVALID_ARG_VALUE)"
  by (simp add: playDiscordPcmStream_def start_def pcmTransform_def PcmTransform_constructor_def
      resolved_inputSampleRate_def resolved_inputChannels_def threw_at_construction_def
      output_stream_def PassThrough_constructor_def resolve_not_finite)

lemma distinct_count_le_1: "distinct xs \<Longrightarrow> count_list xs c \<le> 1"
  by (induction xs) (auto simp: count_list_0_iff)

lemma reachable_calls:
  assumes "reachable s"
  shows "distinct (calls s)"
    and "Stop \<in> set (calls s) \<Longrightarrow>
           aborted s \<and> signal s = Some True \<and> calls s = Play # Stop # teardown_calls \<and>
           (result s = None \<or> result s = Some (Resolved True))"
    and "result s \<noteq> None \<Longrightarrow> result s \<noteq> Some (Resolved True) \<Longrightarrow>
           calls s = Play # teardown_calls"
proof -
  consider "running s" | "aborting s" | "completed s" | "aborted_result s" | "preaborted s"
    using assms unfolding reachable_def by blast
  note cases = this
  show "distinct (calls s)"
    by (rule cases) (simp_all add: running_def aborting_def completed_def aborted_result_def
                        preaborted_def)
  show "aborted s \<and> signal s = Some True \<and> calls s = Play # Stop # teardown_calls \<and>
           (result s = None \<or> result s = Some (Resolved True))"
    if "Stop \<in> set (calls s)"
    using that
    by (rule_tac cases) (simp_all add: running_def aborting_def completed_def aborted_result_def
                        preaborted_def)
  show "calls s = Play # teardown_calls"
    if "result s \<noteq> None" "result s \<noteq> Some (Resolved True)"
    using that
    by (rule_tac cases) (simp_all add: running_def aborting_def completed_def aborted_result_def
                        preaborted_def)
qed

text \<open>
  Claim C4. Whatever the parameters and whatever events arrive, in any order and number,
  no call on the player or the streams is made twice: each call of the teardown body
  (the two \<^verbatim>\<open>unpipe\<close> and the three \<^verbatim>\<open>destroy\<close>) occurs at most once. If the player
  was stopped, then the signal fired, \<^verbatim>\<open>stop\<close> was called by the cleanup that the
  abort listener ran (it is followed by that cleanup's teardown calls), and the call did
  not resolve with \<^verbatim>\<open>{aborted: false}\<close>; on normal completion (the call resolved with
  \<^verbatim>\<open>{aborted: false}\<close>) the teardown ran and the player was not stopped.
\<close>

theorem teardown_at_most_once:
  "distinct (calls (playDiscordPcmStream p events)) \<and>
   (\<forall>c. count_list (calls (playDiscordPcmStream p events)) c \<le> 1) \<and>
   (Stop \<in> set (calls (playDiscordPcmStream p events)) \<longrightarrow>
      aborted (playDiscordPcmStream p events) \<and>
      signal (playDiscordPcmStream p events) = Some True \<and>
      calls (playDiscordPcmStream p events) = Play # Stop # teardown_calls \<and>
      result (playDiscordPcmStream p events) \<noteq> Some (Resolved False)) \<and>
   (result (playDiscordPcmStream p events) = Some (Resolved False) \<longrightarrow>
      calls (playDiscordPcmStream p events) = Play # teardown_calls \<and>
      Stop \<notin> set (calls (playDiscordPcmStream p events)))"
proof -
  define s where "s = playDiscordPcmStream p events"
  consider "reachable s" | e where "s = threw_at_construction e"
    using playDiscordPcmStream_reachable [of p events] unfolding s_def by blast
  then have "distinct (calls s) \<and>
   (Stop \<in> set (calls s) \<longrightarrow>
      aborted s \<and> signal s = Some True \<and> calls s = Play # Stop # teardown_calls \<and>
      result s \<noteq> Some (Resolved False)) \<and>
   (result s = Some (Resolved False) \<longrightarrow>
      calls s = Play # teardown_calls \<and> Stop \<notin> set (calls s))"
  proof cases
    case 1
    have a: "distinct (calls s)" using reachable_calls(1) [OF 1] .
    have b: "Stop \<in> set (calls s) \<longrightarrow>
      aborted s \<and> signal s = Some True \<and> calls s = Play # Stop # teardown_calls \<and>
      result s \<noteq> Some (Resolved False)"
      using reachable_calls(2) [OF 1] by auto
    have c: "result s = Some (Resolved False) \<longrightarrow>
      calls s = Play # teardown_calls \<and> Stop \<notin> set (calls s)"
      using reachable_calls(3) [OF 1] by simp
    show ?thesis using a b c by blast
  next
    case 2
    then show ?thesis by (simp add: threw_at_construction_def)
  qed
  then show ?thesis
    unfolding s_def [symmetric] using distinct_count_le_1 [of "calls s"] by blast
qed

text \<open>
  The theorem on an aborted call and on a call that completes normally.
\<close>

theorem teardown_at_most_once_witness:
  "Stop \<in> set (calls (playDiscordPcmStream
      \<lparr>abortSignal = Some False, param_inputSampleRate = None, param_inputChannels = None,
      maxBufferedMs = None\<rparr>
      [StreamError ''boom'', AbortFired, Resume, OutputClose, Resume, Resume])) \<and>
   calls (playDiscordPcmStream
      \<lparr>abortSignal = Some False, param_inputSampleRate = None, param_inputChannels = None,
      maxBufferedMs = None\<rparr>
      [StreamError ''boom'', AbortFired, Resume, OutputClose, Resume, Resume])
     = Play # Stop # teardown_calls \<and>
   result (playDiscordPcmStream
      \<lparr>abortSignal = None, param_inputSampleRate = None, param_inputChannels = None,
      maxBufferedMs = None\<rparr>
      [EntersStateSettled, OutputFinish, Resume, Resume, EntersStateSettled, OutputClose])
     = Some (Resolved False) \<and>
   calls (playDiscordPcmStream
      \<lparr>abortSignal = None, param_inputSampleRate = None, param_inputChannels = None,
      maxBufferedMs = None\<rparr>
      [EntersStateSettled, OutputFinish, Resume, Resume, EntersStateSettled, OutputClose])
     = Play # teardown_calls"
proof -
  let ?q = "\<lparr>abortSignal = Some False, param_inputSampleRate = None, param_inputChannels = None,
      maxBufferedMs = None\<rparr>"
  let ?n = "\<lparr>abortSignal = None, param_inputSampleRate = None, param_inputChannels = None,
      maxBufferedMs = None\<rparr>"
  let ?ea = "[StreamError ''boom'', AbortFired, Resume, OutputClose, Resume, Resume]"
  let ?en = "[EntersStateSettled, OutputFinish, Resume, Resume, EntersStateSettled, OutputClose]"
  have sq: "start ?q = Inr \<lparr>signal = Some False, aborted = False,
                     settled = False, done_flag = False, pipeDone = None, abortDone = False,
                     abortListener = True, onceListener = True,
                     pc = AwaitPlaying, calls = [Play], result = None\<rparr>"
    by (simp add: start_def pcmTransform_def PcmTransform_constructor_def
        resolved_inputSampleRate_def resolved_inputChannels_def Let_def
        output_stream_def PassThrough_constructor_def resolve_default)
  have sn: "start ?n = Inr \<lparr>signal = None, aborted = False,
                     settled = False, done_flag = False, pipeDone = None, abortDone = False,
                     abortListener = False, onceListener = False,
                     pc = AwaitPlaying, calls = [Play], result = None\<rparr>"
    by (simp add: start_def pcmTransform_def PcmTransform_constructor_def
        resolved_inputSampleRate_def resolved_inputChannels_def Let_def
        output_stream_def PassThrough_constructor_def resolve_default)
  have a: "Stop \<in> set (calls (playDiscordPcmStream ?q ?ea))"
    by (simp add: playDiscordPcmStream_def sq settle_def cleanup_def Let_def)
  have n: "result (playDiscordPcmStream ?n ?en) = Some (Resolved False)"
    by (simp add: playDiscordPcmStream_def sn settle_def cleanup_def finish_def
        after_pipeDone_def Let_def)
  show ?thesis
    using a n teardown_at_most_once [of ?q ?ea] teardown_at_most_once [of ?n ?en]
    by blast
qed

section \<open>Properties of the streaming delivery controller\<close>

text \<open>
  Claim C5, against the controller as modelled from the specification. When streaming is
  requested from a provider that supports it and the attempt times out or fails: with
  \<^verbatim>\<open>fallbackToBuffered\<close> the result is the buffered delivery's, tagged
  \<open>delivery = buffered\<close> and carrying the streaming failure in
  \<open>fallbackFromError\<close>, and it is a success exactly when the buffered synthesis
  succeeds; without it the result is a failure tagged \<open>delivery = stream\<close>.
\<close>

theorem streaming_failure_fallback:
  "stream_enabled request \<and> supportsStreaming client \<and>
   race (synthesizeStreaming client) (timeoutMs request) = Some reason \<longrightarrow>
     (fallbackToBuffered request \<longrightarrow>
        delivery (requestSpeech client request) = buffered \<and>
        fallbackFromError (requestSpeech client request) = Some reason \<and>
        (outcome_variant (requestSpeech client request) = BufferedSuccess
           \<longleftrightarrow> synthesizeBuffered client = None)) \<and>
     (\<not> fallbackToBuffered request \<longrightarrow>
        outcome_variant (requestSpeech client request) = Failure UnsupportedOrTimedOut \<and>
        delivery (requestSpeech client request) = stream)"
  by (auto simp: requestSpeech_def start_timer_race_def buffered_path_def split: option.splits)

text \<open>
  The theorem on a streaming call that answers after 500 ms against a timeout of 1 ms,
  with and without fallback.
\<close>

theorem streaming_failure_fallback_witness:
  "race (Responds 500 None) 1 = Some TimedOut \<and>
   delivery (requestSpeech
     \<lparr>supportsStreaming = True, synthesizeStreaming = Responds 500 None, synthesizeBuffered = None\<rparr>
     \<lparr>stream_enabled = True, timeoutMs = 1, fallbackToBuffered = True\<rparr>) = buffered \<and>
   fallbackFromError (requestSpeech
     \<lparr>supportsStreaming = True, synthesizeStreaming = Responds 500 None, synthesizeBuffered = None\<rparr>
     \<lparr>stream_enabled = True, timeoutMs = 1, fallbackToBuffered = True\<rparr>) = Some TimedOut \<and>
   delivery (requestSpeech
     \<lparr>supportsStreaming = True, synthesizeStreaming = Responds 500 None, synthesizeBuffered = None\<rparr>
     \<lparr>stream_enabled = True, timeoutMs = 1, fallbackToBuffered = False\<rparr>) = stream"
proof -
  have r: "race (Responds 500 None) 1 = Some TimedOut" by (simp add: race_def)
  show ?thesis
    using r
      streaming_failure_fallback
        [where client = "\<lparr>supportsStreaming = True, synthesizeStreaming = Responds 500 None,
                          synthesizeBuffered = None\<rparr>"
           and request = "\<lparr>stream_enabled = True, timeoutMs = 1, fallbackToBuffered = True\<rparr>"
           and reason = TimedOut]
      streaming_failure_fallback
        [where client = "\<lparr>supportsStreaming = True, synthesizeStreaming = Responds 500 None,
                          synthesizeBuffered = None\<rparr>"
           and request = "\<lparr>stream_enabled = True, timeoutMs = 1, fallbackToBuffered = False\<rparr>"
           and reason = TimedOut]
    by simp
qed

text \<open>
  Claim C5 as it is stated promises a successful result: when the buffered synthesis
  fails too, the fallback returns a failure.
\<close>

theorem fallback_can_fail_counterexample:
  "outcome_variant (requestSpeech
     \<lparr>supportsStreaming = True, synthesizeStreaming = NeverResponds,
      synthesizeBuffered = Some ''no audio''\<rparr>
     \<lparr>stream_enabled = True, timeoutMs = 1, fallbackToBuffered = True\<rparr>)
   = Failure ProviderError"
  by (simp add: requestSpeech_def start_timer_race_def buffered_path_def race_def)

text \<open>
  The count of timer races tells the two paths apart: a request with streaming enabled to
  a provider that supports it has started one race when it returns.
\<close>

lemma supported_provider_races:
  "stream_enabled request \<and> supportsStreaming client \<longrightarrow>
     timer_races (requestSpeech client request) = 1"
  by (auto simp: requestSpeech_def start_timer_race_def buffered_path_def split: option.splits)



end
